theory Spec2Isabelle
  imports Complex_Main "HOL-Library.Extended_Nat"
begin

section \<open>Exceptions, loops and the random source\<close>

text \<open>
  The repository is TypeScript. A read of a property of \<open>undefined\<close> throws a
  \<open>TypeError\<close>, unbounded recursion throws a \<open>RangeError\<close>, and the generator
  throws its own error when no connected graph was found.

  A method that only reads returns \<open>error + 'a\<close>. A method that mutates its object
  returns an \<open>outcome\<close>: the exception it threw, if any, together with the object as
  the call left it, since a mutation made before the throw stays made.
\<close>

datatype error = TypeError | RangeError | GenerationError

type_synonym 's outcome = "error option \<times> 's"

fun forEachJS :: "('a \<Rightarrow> 's \<Rightarrow> 's outcome) \<Rightarrow> 'a list \<Rightarrow> 's \<Rightarrow> 's outcome" where
  "forEachJS f [] s = (None, s)"
| "forEachJS f (x # xs) s =
     (case f x s of
        (Some e, s') \<Rightarrow> (Some e, s')
      | (None, s') \<Rightarrow> forEachJS f xs s')"

definition toResult :: "'s outcome \<Rightarrow> error + 's" where
  "toResult r = (case r of (None, s) \<Rightarrow> Inr s | (Some e, s) \<Rightarrow> Inl e)"

text \<open>
  \<open>Math.random()\<close> is a global source of numbers in \<open>[0, 1)\<close>. It is modelled as
  the stream of the values it will return; a draw takes the head and leaves the tail.
\<close>

type_synonym rng = "nat \<Rightarrow> real"

definition random :: "rng \<Rightarrow> real \<times> rng" where
  "random r = (r 0, \<lambda>i. r (Suc i))"

subsection \<open>Double arithmetic\<close>

text \<open>
  A JavaScript number is a double. Sums, differences and comparisons of the whole numbers
  the code counts with are exact (they stay below \<open>2^53\<close>), and so are \<open>Math.abs\<close>, the
  unary minus and \<open>Math.floor\<close>. A quotient and a product are rounded: the result is
  the double nearest to the exact value, the one with the even significand when two are
  equally near. A double has a significand of 53 bits; below \<open>2^-1022\<close> the spacing stays
  \<open>2^-1074\<close>. A result of \<open>2^1024\<close> or more would be \<open>Infinity\<close> and is left out: the
  code divides and multiplies counts of nodes and of robots, and a draw of
  \<open>Math.random()\<close> by a number of ports.

  \<open>exponentOf x\<close> is the \<open>e\<close> with \<open>2^e \<le> x < 2^(e + 1)\<close>, for a positive \<open>x\<close>.
\<close>

function exponentUp :: "real \<Rightarrow> nat" where
  "exponentUp x = (if x < 2 then 0 else Suc (exponentUp (x / 2)))"
  by pat_completeness auto
termination
proof (relation "measure (\<lambda>x. nat \<lfloor>x\<rfloor>)")
  show "wf (measure (\<lambda>x :: real. nat \<lfloor>x\<rfloor>))" by simp
next
  fix x :: real assume "\<not> x < 2"
  then have "x / 2 \<le> x - 1" by simp
  then have "\<lfloor>x / 2\<rfloor> \<le> \<lfloor>x - 1\<rfloor>" by (rule floor_mono)
  moreover from \<open>\<not> x < 2\<close> have "2 \<le> \<lfloor>x\<rfloor>" by (simp add: le_floor_iff)
  ultimately show "(x / 2, x) \<in> measure (\<lambda>x. nat \<lfloor>x\<rfloor>)" by simp
qed

function exponentDown :: "real \<Rightarrow> nat" where
  "exponentDown x = (if x \<le> 0 \<or> 1 \<le> x then 0 else Suc (exponentDown (2 * x)))"
  by pat_completeness auto
termination
proof (relation "measure (\<lambda>x. nat \<lfloor>1 / x\<rfloor>)")
  show "wf (measure (\<lambda>x :: real. nat \<lfloor>1 / x\<rfloor>))" by simp
next
  fix x :: real assume "\<not> (x \<le> 0 \<or> 1 \<le> x)"
  then have x: "0 < x" "x < 1" by simp_all
  then have one: "1 \<le> \<lfloor>1 / x\<rfloor>" by (simp add: le_floor_iff)
  have "\<lfloor>1 / (2 * x)\<rfloor> < \<lfloor>1 / x\<rfloor>"
  proof (cases "2 \<le> 1 / x")
    case True
    then have "1 / (2 * x) \<le> 1 / x - 1" using x by (simp add: field_simps)
    then have "\<lfloor>1 / (2 * x)\<rfloor> \<le> \<lfloor>1 / x - 1\<rfloor>" by (rule floor_mono)
    also have "\<dots> = \<lfloor>1 / x\<rfloor> - 1" by (rule floor_diff_one)
    finally show ?thesis by linarith
  next
    case False
    then have "1 / (2 * x) < 1" using x by (simp add: field_simps)
    then have "\<lfloor>1 / (2 * x)\<rfloor> < 1" by (simp add: floor_less_iff)
    with one show ?thesis by linarith
  qed
  with one show "(2 * x, x) \<in> measure (\<lambda>x. nat \<lfloor>1 / x\<rfloor>)" by simp
qed

definition exponentOf :: "real \<Rightarrow> int" where
  "exponentOf x = (if 1 \<le> x then int (exponentUp x) else - int (exponentDown x))"

definition pow2 :: "int \<Rightarrow> real" where
  "pow2 e = (if 0 \<le> e then 2 ^ nat e else 1 / 2 ^ nat (- e))"

definition roundTiesToEven :: "real \<Rightarrow> int" where
  "roundTiesToEven y =
     (let f = \<lfloor>y\<rfloor>; d = y - of_int f
      in if d < 1 / 2 then f else if 1 / 2 < d then f + 1 else if even f then f else f + 1)"

definition roundDouble :: "real \<Rightarrow> real" where
  "roundDouble x =
     (if x = 0 then 0
      else let u = pow2 (max (exponentOf \<bar>x\<bar>) (- 1022) - 52)
           in sgn x * of_int (roundTiesToEven (\<bar>x\<bar> / u)) * u)"

text \<open>\<open>a / b\<close> and \<open>a * b\<close> on doubles.\<close>

definition divideJS :: "real \<Rightarrow> real \<Rightarrow> real" where
  "divideJS a b = roundDouble (a / b)"

definition timesJS :: "real \<Rightarrow> real \<Rightarrow> real" where
  "timesJS a b = roundDouble (a * b)"

text \<open>The rounding at work: \<open>1/10\<close> and \<open>1/3\<close> as doubles; \<open>3 / 11 * 55\<close> falls just
  under 15; and a draw below \<open>4/7\<close> whose product with 7 is rounded up to 4.\<close>

lemma roundDouble_examples:
  "roundDouble (1 / 10) = 7205759403792794 / 2 ^ 56"
  "roundDouble (1 / 3) = 6004799503160661 / 2 ^ 54"
  "\<lfloor>timesJS (divideJS 3 11) 55\<rfloor> = 14"
  "\<lfloor>timesJS (divideJS 8 11) 55\<rfloor> = 40"
  "2573485501354569 / 2 ^ 52 * 7 < (4 :: real)"
  "\<lfloor>timesJS (2573485501354569 / 2 ^ 52) 7\<rfloor> = 4"
  by code_simp+

text \<open>\<open>Array.prototype.findIndex\<close>: the first index whose element satisfies the
  predicate, \<open>-1\<close> when there is none.\<close>

fun findIndexFrom :: "('a \<Rightarrow> bool) \<Rightarrow> 'a list \<Rightarrow> nat \<Rightarrow> int" where
  "findIndexFrom P [] i = - 1"
| "findIndexFrom P (x # xs) i = (if P x then int i else findIndexFrom P xs (Suc i))"

definition findIndexJS :: "('a \<Rightarrow> bool) \<Rightarrow> 'a list \<Rightarrow> int" where
  "findIndexJS P xs = findIndexFrom P xs 0"

text \<open>\<open>xs.splice(i, 1)\<close>: removes the element at \<open>i\<close>, nothing when \<open>i\<close> is past the
  end; a negative start counts from the end.\<close>

definition spliceOne :: "'a list \<Rightarrow> nat \<Rightarrow> 'a list" where
  "spliceOne xs i = take i xs @ drop (Suc i) xs"

definition spliceOneInt :: "'a list \<Rightarrow> int \<Rightarrow> 'a list" where
  "spliceOneInt xs i =
     (if i < 0 then spliceOne xs (nat (max 0 (int (length xs) + i)))
      else spliceOne xs (nat i))"

section \<open>graph.ts: the Graph class\<close>

text \<open>
  Weights are JavaScript numbers; the code only stores them, negates them, takes their
  absolute value and compares them with zero, which is exact on finite doubles, so they
  are modelled as reals. Node ids and ports index arrays and are natural numbers; a
  value that may be \<open>-1\<close> is an integer.
\<close>

record Edge =
  weight :: real
  targetNode :: nat

record Vertex =
  weight :: real
  edges :: "Edge list"

record Graph =
  nodes :: "Vertex list"
  isDirected :: bool

definition newGraph :: "bool \<Rightarrow> Graph" where
  "newGraph d = \<lparr>nodes = [], isDirected = d\<rparr>"

text \<open>\<open>JSON.parse(JSON.stringify(this.nodes))\<close>: a copy of the nodes by value. In
  this value model the copy is the list itself; the store model further down is the one
  in which sharing can be observed.\<close>

definition deepCopyNodes :: "Graph \<Rightarrow> Vertex list" where
  "deepCopyNodes g = nodes g"

definition addNode :: "Graph \<Rightarrow> real \<Rightarrow> Graph" where
  "addNode g nodeWeight = g\<lparr>nodes := nodes g @ [\<lparr>Vertex.weight = nodeWeight, edges = []\<rparr>]\<rparr>"

text \<open>\<open>updateEdges g n f\<close> is a mutation of \<open>this.nodes[n].edges\<close>, for \<open>n\<close> in range.\<close>

definition updateEdges :: "Graph \<Rightarrow> nat \<Rightarrow> (Edge list \<Rightarrow> Edge list) \<Rightarrow> Graph" where
  "updateEdges g n f = g\<lparr>nodes := (nodes g)[n := (nodes g ! n)\<lparr>edges := f (edges (nodes g ! n))\<rparr>]\<rparr>"

definition addEdge :: "Graph \<Rightarrow> nat \<Rightarrow> nat \<Rightarrow> real \<Rightarrow> Graph outcome" where
  "addEdge g sourceId targetId edgeWeight =
     (if length (nodes g) \<le> sourceId then (Some TypeError, g)
      else
        let g1 = updateEdges g sourceId
                   (\<lambda>es. es @ [\<lparr>Edge.weight = edgeWeight, targetNode = targetId\<rparr>])
        in if isDirected g then (None, g1)
           else if length (nodes g) \<le> targetId then (Some TypeError, g1)
           else (None, updateEdges g1 targetId
                   (\<lambda>es. es @ [\<lparr>Edge.weight = edgeWeight, targetNode = sourceId\<rparr>])))"

text \<open>
  \<open>removeNode\<close>: the inner \<open>forEach\<close> visits the indices \<open>0 .. len - 1\<close> of the edge
  array, \<open>len\<close> read once before the loop, and skips an index that is no longer in the
  array. Its callback splices the array it is iterating.
\<close>

definition removeNodeVisit :: "nat \<Rightarrow> nat \<Rightarrow> Edge list \<Rightarrow> Edge list" where
  "removeNodeVisit nodeId i es =
     (if i < length es then
        let edge = es ! i;
            es1 = (if targetNode edge = nodeId then spliceOne es i else es);
            es2 = (if nodeId < targetNode edge
                   then es1[i := edge\<lparr>targetNode := targetNode edge - 1\<rparr>] else es1)
        in es2
      else es)"

definition removeNodeEdges :: "nat \<Rightarrow> Edge list \<Rightarrow> Edge list" where
  "removeNodeEdges nodeId es = fold (removeNodeVisit nodeId) [0..<length es] es"

definition removeNode :: "Graph \<Rightarrow> nat \<Rightarrow> Graph" where
  "removeNode g nodeId =
     g\<lparr>nodes := map (\<lambda>node. node\<lparr>edges := removeNodeEdges nodeId (edges node)\<rparr>)
                   (spliceOne (nodes g) nodeId)\<rparr>"

definition removeEdge :: "Graph \<Rightarrow> nat \<Rightarrow> nat \<Rightarrow> Graph outcome" where
  "removeEdge g sourceId targetId =
     (if length (nodes g) \<le> sourceId then (Some TypeError, g)
      else
        let g1 = updateEdges g sourceId
                   (\<lambda>es. spliceOneInt es (findIndexJS (\<lambda>edge. targetNode edge = targetId) es))
        in if isDirected g then (None, g1)
           else if length (nodes g) \<le> targetId then (Some TypeError, g1)
           else (None, updateEdges g1 targetId
                   (\<lambda>es. spliceOneInt es (findIndexJS (\<lambda>edge. targetNode edge = sourceId) es))))"

definition setNodeWeight :: "Graph \<Rightarrow> nat \<Rightarrow> real \<Rightarrow> Graph outcome" where
  "setNodeWeight g nodeId w =
     (if length (nodes g) \<le> nodeId then (Some TypeError, g)
      else (None, g\<lparr>nodes := (nodes g)[nodeId := (nodes g ! nodeId)\<lparr>Vertex.weight := w\<rparr>]\<rparr>))"

text \<open>\<open>const edge = es.find(edge => edge.targetNode === t); if (edge) { edge.weight = w }\<close>\<close>

fun setFirstEdgeWeight :: "nat \<Rightarrow> real \<Rightarrow> Edge list \<Rightarrow> Edge list" where
  "setFirstEdgeWeight t w [] = []"
| "setFirstEdgeWeight t w (edge # es) =
     (if targetNode edge = t then edge\<lparr>Edge.weight := w\<rparr> # es
      else edge # setFirstEdgeWeight t w es)"

definition setEdgeWeight :: "Graph \<Rightarrow> nat \<Rightarrow> nat \<Rightarrow> real \<Rightarrow> Graph outcome" where
  "setEdgeWeight g sourceId targetId w =
     (if length (nodes g) \<le> sourceId then (Some TypeError, g)
      else
        let g1 = updateEdges g sourceId (setFirstEdgeWeight targetId w)
        in if isDirected g then (None, g1)
           else if length (nodes g) \<le> targetId then (Some TypeError, g1)
           else (None, updateEdges g1 targetId (setFirstEdgeWeight sourceId w)))"

text \<open>The callback of the inner \<open>forEach\<close> of \<open>setRandomEdgeWeightSigns\<close>, at the edge
  object in port \<open>port\<close> of node \<open>sourceId\<close>.\<close>

definition setRandomSign :: "real \<Rightarrow> nat \<Rightarrow> nat \<Rightarrow> Graph \<times> rng \<Rightarrow> (Graph \<times> rng) outcome" where
  "setRandomSign p sourceId port s =
     (let g = fst s;
          edge = edges (nodes g ! sourceId) ! port;
          (x, r) = random (snd s);
          w = (if x < p then \<bar>Edge.weight edge\<bar> else - \<bar>Edge.weight edge\<bar>);
          (thrown, g') = setEdgeWeight g sourceId (targetNode edge) w
      in (thrown, (g', r)))"

definition setRandomEdgeWeightSigns :: "real \<Rightarrow> Graph \<times> rng \<Rightarrow> (Graph \<times> rng) outcome" where
  "setRandomEdgeWeightSigns p s =
     forEachJS
       (\<lambda>sourceId s'.
          forEachJS (setRandomSign p sourceId)
            [0..<length (edges (nodes (fst s') ! sourceId))] s')
       [0..<length (nodes (fst s))] s"

definition vertexAt :: "Graph \<Rightarrow> nat \<Rightarrow> error + Vertex" where
  "vertexAt g nodeId = (if nodeId < length (nodes g) then Inr (nodes g ! nodeId) else Inl TypeError)"

definition edgeAt :: "Vertex \<Rightarrow> int \<Rightarrow> error + Edge" where
  "edgeAt v port =
     (if 0 \<le> port \<and> port < int (length (edges v)) then Inr (edges v ! nat port)
      else Inl TypeError)"

definition getNodeIds :: "Graph \<Rightarrow> nat list" where
  "getNodeIds g = [0..<length (nodes g)]"

definition getNodeWeight :: "Graph \<Rightarrow> nat \<Rightarrow> error + real" where
  "getNodeWeight g nodeId =
     (case vertexAt g nodeId of Inl e \<Rightarrow> Inl e | Inr v \<Rightarrow> Inr (Vertex.weight v))"

definition getEdgeWeight :: "Graph \<Rightarrow> nat \<Rightarrow> nat \<Rightarrow> error + real" where
  "getEdgeWeight g sourceId targetId =
     (case vertexAt g sourceId of
        Inl e \<Rightarrow> Inl e
      | Inr v \<Rightarrow>
          (case find (\<lambda>edge. targetNode edge = targetId) (edges v) of
             Some edge \<Rightarrow> Inr (Edge.weight edge)
           | None \<Rightarrow> Inr 0))"

definition getEdgeWeightFromPort :: "Graph \<Rightarrow> nat \<Rightarrow> int \<Rightarrow> error + real" where
  "getEdgeWeightFromPort g nodeId port =
     (case vertexAt g nodeId of
        Inl e \<Rightarrow> Inl e
      | Inr v \<Rightarrow> (case edgeAt v port of Inl e \<Rightarrow> Inl e | Inr edge \<Rightarrow> Inr (Edge.weight edge)))"

definition getNumberOfPorts :: "Graph \<Rightarrow> nat \<Rightarrow> error + nat" where
  "getNumberOfPorts g nodeId =
     (case vertexAt g nodeId of Inl e \<Rightarrow> Inl e | Inr v \<Rightarrow> Inr (length (edges v)))"

definition getNodeCount :: "Graph \<Rightarrow> nat" where
  "getNodeCount g = length (nodes g)"

definition getAdjacentNodes :: "Graph \<Rightarrow> nat \<Rightarrow> error + nat list" where
  "getAdjacentNodes g nodeId =
     (case vertexAt g nodeId of Inl e \<Rightarrow> Inl e | Inr v \<Rightarrow> Inr (map targetNode (edges v)))"

definition getChildPorts :: "Graph \<Rightarrow> nat \<Rightarrow> int \<Rightarrow> error + nat list" where
  "getChildPorts g nodeId parentPort =
     (case getNumberOfPorts g nodeId of
        Inl e \<Rightarrow> Inl e
      | Inr n \<Rightarrow> Inr (filter (\<lambda>port. int port \<noteq> parentPort) [0..<n]))"

definition getAdjacentNodeFromPort :: "Graph \<Rightarrow> nat \<Rightarrow> int \<Rightarrow> error + nat" where
  "getAdjacentNodeFromPort g nodeId port =
     (case vertexAt g nodeId of
        Inl e \<Rightarrow> Inl e
      | Inr v \<Rightarrow> (case edgeAt v port of Inl e \<Rightarrow> Inl e | Inr edge \<Rightarrow> Inr (targetNode edge)))"

definition getPortFromAdjacentNode :: "Graph \<Rightarrow> nat \<Rightarrow> nat \<Rightarrow> error + int" where
  "getPortFromAdjacentNode g nodeId adjacentNodeId =
     (case vertexAt g nodeId of
        Inl e \<Rightarrow> Inl e
      | Inr v \<Rightarrow> Inr (findIndexJS (\<lambda>edge. targetNode edge = adjacentNodeId) (edges v)))"

text \<open>
  A JavaScript array of the code, where the code indexes it freely: an index that was
  never written reads \<open>undefined\<close> (\<open>None\<close>), and a write past the end extends the
  array, leaving holes between.
\<close>

type_synonym 'a jsArray = "'a option list"

definition arrayGet :: "'a jsArray \<Rightarrow> nat \<Rightarrow> 'a option" where
  "arrayGet xs i = (if i < length xs then xs ! i else None)"

definition arraySet :: "'a jsArray \<Rightarrow> nat \<Rightarrow> 'a \<Rightarrow> 'a jsArray" where
  "arraySet xs i v =
     (if i < length xs then xs[i := Some v]
      else xs @ replicate (i - length xs) None @ [Some v])"

definition arrayFill :: "nat \<Rightarrow> 'a \<Rightarrow> 'a jsArray" where
  "arrayFill n v = replicate n (Some v)"

text \<open>\<open>!visited[i]\<close> holds of \<open>false\<close> and of \<open>undefined\<close>.\<close>

definition isTrue :: "bool jsArray \<Rightarrow> nat \<Rightarrow> bool" where
  "isTrue xs i = (arrayGet xs i = Some True)"

subsection \<open>Breadth-first search\<close>

text \<open>The callback of the \<open>forEach\<close> over the adjacent nodes in \<open>getShortestPath\<close>.\<close>

definition bfsVisit ::
  "nat \<Rightarrow> nat \<Rightarrow> bool jsArray \<times> nat jsArray \<times> nat list \<Rightarrow> bool jsArray \<times> nat jsArray \<times> nat list" where
  "bfsVisit currentNode adjacentNode s =
     (case s of (visited, previousNode, queue) \<Rightarrow>
        if \<not> isTrue visited adjacentNode
        then (arraySet visited adjacentNode True,
              arraySet previousNode adjacentNode currentNode,
              queue @ [adjacentNode])
        else (visited, previousNode, queue))"

text \<open>The nodes a search can meet: those of the graph and the targets of its edges.\<close>

definition idBound :: "Graph \<Rightarrow> nat" where
  "idBound g =
     Suc (Max (insert (length (nodes g)) (set (concat (map (\<lambda>v. map targetNode (edges v)) (nodes g))))))"

definition unvisited :: "nat \<Rightarrow> bool jsArray \<Rightarrow> nat" where
  "unvisited n visited = card {i. i < n \<and> \<not> isTrue visited i}"

lemma arrayGet_arraySet: "arrayGet (arraySet xs i v) j = (if j = i then Some v else arrayGet xs j)"
  by (auto simp: arrayGet_def arraySet_def nth_append nth_Cons')

lemma isTrue_arraySet: "isTrue (arraySet xs i True) j = (j = i \<or> isTrue xs j)"
  by (auto simp: isTrue_def arrayGet_arraySet)

lemma unvisited_arraySet:
  assumes "a < n" and "\<not> isTrue visited a"
  shows "Suc (unvisited n (arraySet visited a True)) = unvisited n visited"
proof -
  have "{i. i < n \<and> \<not> isTrue visited i} = insert a {i. i < n \<and> \<not> isTrue (arraySet visited a True) i}"
    using assms by (auto simp: isTrue_arraySet)
  moreover have "a \<notin> {i. i < n \<and> \<not> isTrue (arraySet visited a True) i}"
    by (simp add: isTrue_arraySet)
  moreover have "finite {i. i < n \<and> \<not> isTrue (arraySet visited a True) i}"
    by simp
  ultimately show ?thesis
    by (simp add: unvisited_def)
qed

lemma arraySet_isTrue_same:
  assumes "isTrue visited a"
  shows "arraySet visited a True = visited"
  using assms by (auto simp: isTrue_def arrayGet_def arraySet_def list_update_same_conv split: if_splits)

lemma bfsVisit_triple:
  "bfsVisit c a (visited, previousNode, queue) =
     (if \<not> isTrue visited a
      then (arraySet visited a True, arraySet previousNode a c, queue @ [a])
      else (visited, previousNode, queue))"
  by (simp add: bfsVisit_def)

lemma bfsVisit_measure:
  assumes "\<forall>a \<in> set adj. a < n"
    and "fold (bfsVisit c) adj (visited, previousNode, queue) = (visited', previousNode', queue')"
  shows "unvisited n visited' + length queue' = unvisited n visited + length queue"
  using assms
proof (induction adj arbitrary: visited previousNode queue)
  case Nil
  then show ?case by simp
next
  case (Cons a adj)
  show ?case
  proof (cases "isTrue visited a")
    case True
    with Cons show ?thesis by (simp add: bfsVisit_triple)
  next
    case False
    from Cons.prems have "a < n" by simp
    from unvisited_arraySet [OF this False]
    have u: "Suc (unvisited n (arraySet visited a True)) = unvisited n visited" .
    from Cons.prems False
    have "fold (bfsVisit c) adj
            (arraySet visited a True, arraySet previousNode a c, queue @ [a])
          = (visited', previousNode', queue')"
      by (simp add: bfsVisit_triple)
    with Cons.IH Cons.prems(1)
    have "unvisited n visited' + length queue'
          = unvisited n (arraySet visited a True) + length (queue @ [a])"
      by simp
    with u show ?thesis by simp
  qed
qed

lemma target_less_idBound:
  assumes "nodeId < length (nodes g)" and "a \<in> set (map targetNode (edges (nodes g ! nodeId)))"
  shows "a < idBound g"
proof -
  let ?S = "insert (length (nodes g)) (set (concat (map (\<lambda>v. map targetNode (edges v)) (nodes g))))"
  from assms have "a \<in> ?S"
    by (auto intro!: bexI [of _ "nodes g ! nodeId"])
  moreover have "finite ?S" by simp
  ultimately have "a \<le> Max ?S" by (rule Max_ge [rotated])
  then show ?thesis by (simp add: idBound_def)
qed

lemma getAdjacentNodes_less_idBound:
  assumes "getAdjacentNodes g nodeId = Inr adj"
  shows "\<forall>a \<in> set adj. a < idBound g"
proof -
  from assms have n: "nodeId < length (nodes g)" and adj: "adj = map targetNode (edges (nodes g ! nodeId))"
    by (auto simp: getAdjacentNodes_def vertexAt_def split: if_splits)
  show ?thesis
    using target_less_idBound [OF n] adj by blast
qed

function bfsLoop :: "Graph \<Rightarrow> nat \<Rightarrow> bool jsArray \<Rightarrow> nat jsArray \<Rightarrow> nat list \<Rightarrow> error + nat jsArray" where
  "bfsLoop g targetId visited previousNode [] = Inr previousNode"
| "bfsLoop g targetId visited previousNode (currentNode # queue) =
     (if currentNode = targetId then Inr previousNode
      else
        (case getAdjacentNodes g currentNode of
           Inl e \<Rightarrow> Inl e
         | Inr adj \<Rightarrow>
             (case fold (bfsVisit currentNode) adj (visited, previousNode, queue) of
                (visited', previousNode', queue') \<Rightarrow> bfsLoop g targetId visited' previousNode' queue')))"
  by pat_completeness auto
termination
  apply (relation "measure (\<lambda>(g, targetId, visited, previousNode, queue). unvisited (idBound g) visited + length queue)")
   apply simp
  subgoal premises prems for g targetId visited previousNode currentNode queue adj visited' y previousNode' queue'
  proof -
    from prems(3,4)
    have "fold (bfsVisit currentNode) adj (visited, previousNode, queue) = (visited', previousNode', queue')"
      by simp
    from bfsVisit_measure [OF getAdjacentNodes_less_idBound [OF prems(2)] this]
    show ?thesis by simp
  qed
  done

text \<open>
  The loop that walks \<open>previousNode\<close> back from the target. On an array with a cycle it
  would not end, so it is a partial function: \<open>None\<close> is the loop that never returns.
\<close>

partial_function (option) reconstructPath :: "nat jsArray \<Rightarrow> nat option \<Rightarrow> nat list \<Rightarrow> nat list option" where
  "reconstructPath previousNode currentNode path =
     (case currentNode of
        None \<Rightarrow> Some path
      | Some c \<Rightarrow> reconstructPath previousNode (arrayGet previousNode c) (c # path))"

declare reconstructPath.simps [code]

definition getShortestPath :: "Graph \<Rightarrow> nat \<Rightarrow> nat \<Rightarrow> (error + nat list) option" where
  "getShortestPath g sourceId targetId =
     (case bfsLoop g targetId (arraySet (arrayFill (getNodeCount g) False) sourceId True) [] [sourceId] of
        Inl e \<Rightarrow> Some (Inl e)
      | Inr previousNode \<Rightarrow>
          (case reconstructPath previousNode (Some targetId) [] of
             None \<Rightarrow> None
           | Some path \<Rightarrow>
               Some (Inr (case path of
                            [] \<Rightarrow> []
                          | first # rest \<Rightarrow> if first \<noteq> sourceId then [] else path))))"

definition getDistanceBetweenNodes :: "Graph \<Rightarrow> nat \<Rightarrow> nat \<Rightarrow> (error + enat) option" where
  "getDistanceBetweenNodes g sourceId targetId =
     (case getShortestPath g sourceId targetId of
        None \<Rightarrow> None
      | Some (Inl e) \<Rightarrow> Some (Inl e)
      | Some (Inr shortestPath) \<Rightarrow>
          Some (Inr (if length shortestPath = 0 then \<infinity> else enat (length shortestPath - 1))))"

section \<open>graph.ts: the generators\<close>

definition generatePath :: "nat \<Rightarrow> bool \<Rightarrow> error + Graph" where
  "generatePath nodeCount d =
     toResult (forEachJS (\<lambda>i g. addEdge (addNode g 1) (i - 1) i 1) [1..<nodeCount]
                 (addNode (newGraph d) 1))"

text \<open>With \<open>nodeCount = 0\<close> the closing edge starts at node \<open>-1\<close>, and \<open>addEdge\<close> throws
  on reading \<open>this.nodes[-1].edges\<close>.\<close>

definition generateCycle :: "nat \<Rightarrow> bool \<Rightarrow> error + Graph" where
  "generateCycle nodeCount d =
     (case generatePath nodeCount d of
        Inl e \<Rightarrow> Inl e
      | Inr g \<Rightarrow>
          if nodeCount = 0 then Inl TypeError
          else toResult (addEdge g (nodeCount - 1) 0 1))"


section \<open>getEdgeWeight\<close>

lemma find_none_iff_no_target:
  "(find (\<lambda>edge. targetNode edge = t) es = None) = (\<forall>edge \<in> set es. targetNode edge \<noteq> t)"
  by (induction es) auto

lemma find_first_target:
  assumes "i < length es" and "targetNode (es ! i) = t"
    and "\<forall>j < i. targetNode (es ! j) \<noteq> t"
  shows "find (\<lambda>edge. targetNode edge = t) es = Some (es ! i)"
  using assms
proof (induction es arbitrary: i)
  case Nil
  then show ?case by simp
next
  case (Cons e es)
  show ?case
  proof (cases i)
    case 0
    with Cons.prems show ?thesis by simp
  next
    case (Suc k)
    from Cons.prems(3) Suc have "targetNode ((e # es) ! 0) \<noteq> t" by blast
    then have ne: "targetNode e \<noteq> t" by simp
    have "\<forall>j < k. targetNode (es ! j) \<noteq> t"
    proof (intro allI impI)
      fix j assume "j < k"
      then have "Suc j < i" using Suc by simp
      with Cons.prems(3) have "targetNode ((e # es) ! Suc j) \<noteq> t" by blast
      then show "targetNode (es ! j) \<noteq> t" by simp
    qed
    with Cons.IH [of k] Cons.prems Suc have "find (\<lambda>edge. targetNode edge = t) es = Some (es ! k)"
      by simp
    with ne Suc show ?thesis by simp
  qed
qed

text \<open>
  C10. For a valid \<open>sourceId\<close>, \<open>getEdgeWeight\<close> does not fail: it returns \<open>0\<close> when no
  edge of the source's edge list has \<open>targetId\<close> as its target, and otherwise the weight
  of the first edge of that list whose target is \<open>targetId\<close>.
\<close>

theorem getEdgeWeight_first_match_or_zero:
  assumes "sourceId < length (nodes g)"
  shows "((\<forall>edge \<in> set (edges (nodes g ! sourceId)). targetNode edge \<noteq> targetId)
            \<longrightarrow> getEdgeWeight g sourceId targetId = Inr 0)
       \<and> (\<forall>i < length (edges (nodes g ! sourceId)).
            targetNode (edges (nodes g ! sourceId) ! i) = targetId
            \<and> (\<forall>j < i. targetNode (edges (nodes g ! sourceId) ! j) \<noteq> targetId)
            \<longrightarrow> getEdgeWeight g sourceId targetId
                  = Inr (Edge.weight (edges (nodes g ! sourceId) ! i)))"
proof (intro conjI impI allI)
  assume "\<forall>edge \<in> set (edges (nodes g ! sourceId)). targetNode edge \<noteq> targetId"
  then have "find (\<lambda>edge. targetNode edge = targetId) (edges (nodes g ! sourceId)) = None"
    by (simp only: find_none_iff_no_target)
  with assms show "getEdgeWeight g sourceId targetId = Inr 0"
    by (simp add: getEdgeWeight_def vertexAt_def)
next
  fix i
  assume "i < length (edges (nodes g ! sourceId))"
    and "targetNode (edges (nodes g ! sourceId) ! i) = targetId
         \<and> (\<forall>j < i. targetNode (edges (nodes g ! sourceId) ! j) \<noteq> targetId)"
  then have "find (\<lambda>edge. targetNode edge = targetId) (edges (nodes g ! sourceId))
             = Some (edges (nodes g ! sourceId) ! i)"
    using find_first_target by blast
  with assms show "getEdgeWeight g sourceId targetId
                   = Inr (Edge.weight (edges (nodes g ! sourceId) ! i))"
    by (simp add: getEdgeWeight_def vertexAt_def)
qed

definition twoParallelEdges :: Graph where
  "twoParallelEdges =
     \<lparr>nodes = [\<lparr>Vertex.weight = 1,
                 edges = [\<lparr>Edge.weight = 2, targetNode = 1\<rparr>, \<lparr>Edge.weight = 3, targetNode = 1\<rparr>]\<rparr>,
               \<lparr>Vertex.weight = 1, edges = []\<rparr>],
      isDirected = True\<rparr>"

theorem getEdgeWeight_first_match_or_zero_witness:
  "getEdgeWeight twoParallelEdges 0 0 = Inr 0 \<and> getEdgeWeight twoParallelEdges 0 1 = Inr 2"
proof -
  have len: "0 < length (nodes twoParallelEdges)"
    by (simp add: twoParallelEdges_def)
  have none: "\<forall>edge \<in> set (edges (nodes twoParallelEdges ! 0)). targetNode edge \<noteq> 0"
    by (simp add: twoParallelEdges_def)
  have first: "0 < length (edges (nodes twoParallelEdges ! 0))
      \<and> targetNode (edges (nodes twoParallelEdges ! 0) ! 0) = 1
      \<and> (\<forall>j < (0::nat). targetNode (edges (nodes twoParallelEdges ! 0) ! j) \<noteq> 1)"
    by (simp add: twoParallelEdges_def)
  have w: "Edge.weight (edges (nodes twoParallelEdges ! 0) ! 0) = 2"
    by (simp add: twoParallelEdges_def)
  from getEdgeWeight_first_match_or_zero [OF len, of 0] none
  have a: "getEdgeWeight twoParallelEdges 0 0 = Inr 0" by blast
  from getEdgeWeight_first_match_or_zero [OF len, of 1] first
  have "getEdgeWeight twoParallelEdges 0 1
        = Inr (Edge.weight (edges (nodes twoParallelEdges ! 0) ! 0))" by blast
  with w a show ?thesis by simp
qed

section \<open>removeNode on a path\<close>

definition path3 :: Graph where
  "path3 =
     \<lparr>nodes =
        [\<lparr>Vertex.weight = 1, edges = [\<lparr>Edge.weight = 1, targetNode = 1\<rparr>]\<rparr>,
         \<lparr>Vertex.weight = 1,
            edges = [\<lparr>Edge.weight = 1, targetNode = 0\<rparr>, \<lparr>Edge.weight = 1, targetNode = 2\<rparr>]\<rparr>,
         \<lparr>Vertex.weight = 1, edges = [\<lparr>Edge.weight = 1, targetNode = 1\<rparr>]\<rparr>],
      isDirected = False\<rparr>"

text \<open>
  C1. On the undirected path \<open>0 - 1 - 2\<close> that \<open>generatePath(3)\<close> builds,
  \<open>removeNode(0)\<close> leaves two vertices, and the first of them (the old node \<open>1\<close>)
  keeps an edge whose \<open>targetNode\<close> is still \<open>2\<close>: the splice of its edge to node \<open>0\<close>
  moved that edge into the index the \<open>forEach\<close> had just visited, so it was never
  decremented. The claim asks for targets \<open>[[1], [0]]\<close>.
\<close>

theorem removeNode_path3_skips_edge:
  "generatePath 3 False = Inr path3
   \<and> map (\<lambda>v. map targetNode (edges v)) (nodes (removeNode path3 0)) = [[2], [0]]"
  by code_simp

section \<open>The shortest path on the cycle of five nodes\<close>

definition cycle5 :: Graph where
  "cycle5 =
     \<lparr>nodes =
        [\<lparr>Vertex.weight = 1,
            edges = [\<lparr>Edge.weight = 1, targetNode = 1\<rparr>, \<lparr>Edge.weight = 1, targetNode = 4\<rparr>]\<rparr>,
         \<lparr>Vertex.weight = 1,
            edges = [\<lparr>Edge.weight = 1, targetNode = 0\<rparr>, \<lparr>Edge.weight = 1, targetNode = 2\<rparr>]\<rparr>,
         \<lparr>Vertex.weight = 1,
            edges = [\<lparr>Edge.weight = 1, targetNode = 1\<rparr>, \<lparr>Edge.weight = 1, targetNode = 3\<rparr>]\<rparr>,
         \<lparr>Vertex.weight = 1,
            edges = [\<lparr>Edge.weight = 1, targetNode = 2\<rparr>, \<lparr>Edge.weight = 1, targetNode = 4\<rparr>]\<rparr>,
         \<lparr>Vertex.weight = 1,
            edges = [\<lparr>Edge.weight = 1, targetNode = 3\<rparr>, \<lparr>Edge.weight = 1, targetNode = 0\<rparr>]\<rparr>],
      isDirected = False\<rparr>"

lemma generateCycle_5: "generateCycle 5 False = Inr cycle5"
  by code_simp

lemma cycle5_path: "getShortestPath cycle5 0 4 = Some (Inr [0, 4])"
  by code_simp

lemma cycle5_distance: "getDistanceBetweenNodes cycle5 0 4 = Some (Inr (enat 1))"
  by code_simp

text \<open>
  C3, as stated, fails: on the undirected cycle of \<open>generateCycle(5)\<close> the path that
  \<open>getShortestPath(0, 4)\<close> returns does not have four nodes, and the distance is not \<open>3\<close>.
\<close>

theorem cycle5_path_has_not_four_nodes:
  "generateCycle 5 False = Inr cycle5
   \<and> \<not> (\<exists>path. getShortestPath cycle5 0 4 = Some (Inr path) \<and> length path = 4)
   \<and> getDistanceBetweenNodes cycle5 0 4 \<noteq> Some (Inr (enat 3))"
  using generateCycle_5 cycle5_path cycle5_distance by simp

text \<open>
  C3, amended. The closing edge of the cycle joins node \<open>4\<close> to node \<open>0\<close>, so on the
  undirected cycle of \<open>generateCycle(5)\<close>, \<open>getShortestPath(0, 4)\<close> returns the path
  \<open>[0, 4]\<close> of two nodes and one edge, and \<open>getDistanceBetweenNodes(0, 4)\<close> returns \<open>1\<close>.
\<close>

theorem cycle5_shortest_path_is_one_edge:
  "generateCycle 5 False = Inr cycle5
   \<and> getShortestPath cycle5 0 4 = Some (Inr [0, 4])
   \<and> getDistanceBetweenNodes cycle5 0 4 = Some (Inr (enat 1))"
  using generateCycle_5 cycle5_path cycle5_distance by simp

section \<open>What setEdgeWeight and setRandomEdgeWeightSigns change\<close>

definition portCount :: "Graph \<Rightarrow> nat \<Rightarrow> nat" where
  "portCount g n = length (edges (nodes g ! n))"

definition targetAt :: "Graph \<Rightarrow> nat \<Rightarrow> nat \<Rightarrow> nat" where
  "targetAt g n i = targetNode (edges (nodes g ! n) ! i)"

definition weightAt :: "Graph \<Rightarrow> nat \<Rightarrow> nat \<Rightarrow> real" where
  "weightAt g n i = Edge.weight (edges (nodes g ! n) ! i)"

definition sameTopology :: "Graph \<Rightarrow> Graph \<Rightarrow> bool" where
  "sameTopology g g' =
     (isDirected g' = isDirected g \<and> length (nodes g') = length (nodes g)
      \<and> (\<forall>n < length (nodes g).
            Vertex.weight (nodes g' ! n) = Vertex.weight (nodes g ! n)
            \<and> portCount g' n = portCount g n
            \<and> (\<forall>i < portCount g n. targetAt g' n i = targetAt g n i)))"

definition sameMagnitudes :: "Graph \<Rightarrow> Graph \<Rightarrow> bool" where
  "sameMagnitudes g g' =
     (\<forall>n < length (nodes g). \<forall>i < portCount g n. \<bar>weightAt g' n i\<bar> = \<bar>weightAt g n i\<bar>)"

lemma sameTopology_refl: "sameTopology g g"
  by (simp add: sameTopology_def)

lemma sameTopology_trans: "sameTopology g g' \<Longrightarrow> sameTopology g' g'' \<Longrightarrow> sameTopology g g''"
  by (simp add: sameTopology_def)

lemma length_setFirstEdgeWeight: "length (setFirstEdgeWeight t w es) = length es"
  by (induction es) auto

lemma target_setFirstEdgeWeight:
  "i < length es \<Longrightarrow> targetNode (setFirstEdgeWeight t w es ! i) = targetNode (es ! i)"
  by (induction es arbitrary: i) (auto simp: nth_Cons')

lemma weight_setFirstEdgeWeight:
  "i < length es \<Longrightarrow>
     Edge.weight (setFirstEdgeWeight t w es ! i) = Edge.weight (es ! i)
     \<or> (targetNode (es ! i) = t \<and> Edge.weight (setFirstEdgeWeight t w es ! i) = w)"
  by (induction es arbitrary: i) (auto simp: nth_Cons')


lemma nodes_updateEdges:
  "n < length (nodes g) \<Longrightarrow>
     nodes (updateEdges g n f) ! m
       = (if m = n then (nodes g ! n)\<lparr>edges := f (edges (nodes g ! n))\<rparr> else nodes g ! m)"
  by (simp add: updateEdges_def nth_list_update)

lemma length_nodes_updateEdges: "length (nodes (updateEdges g n f)) = length (nodes g)"
  by (simp add: updateEdges_def)

lemma isDirected_updateEdges: "isDirected (updateEdges g n f) = isDirected g"
  by (simp add: updateEdges_def)

text \<open>One \<open>find\<close>-and-assign on the edge list of node \<open>n\<close>.\<close>

lemma updateEdges_setFirst_topology:
  "n < length (nodes g) \<Longrightarrow> sameTopology g (updateEdges g n (setFirstEdgeWeight t w))"
  by (simp add: sameTopology_def nodes_updateEdges length_nodes_updateEdges isDirected_updateEdges
      portCount_def targetAt_def length_setFirstEdgeWeight target_setFirstEdgeWeight)

lemma updateEdges_setFirst_weight:
  assumes "n < length (nodes g)" and "m < length (nodes g)" and "i < portCount g m"
  shows "weightAt (updateEdges g n (setFirstEdgeWeight t w)) m i = weightAt g m i
       \<or> (m = n \<and> targetAt g m i = t \<and> weightAt (updateEdges g n (setFirstEdgeWeight t w)) m i = w)"
  using assms weight_setFirstEdgeWeight [of i "edges (nodes g ! n)" t w]
  by (auto simp: nodes_updateEdges portCount_def targetAt_def weightAt_def)

lemma setEdgeWeight_topology: "sameTopology g (snd (setEdgeWeight g s t w))"
proof -
  have 1: "sameTopology g (updateEdges g s (setFirstEdgeWeight t w))" if "s < length (nodes g)"
    using that by (rule updateEdges_setFirst_topology)
  have 2: "sameTopology g (updateEdges (updateEdges g s (setFirstEdgeWeight t w)) t (setFirstEdgeWeight s w))"
    if "s < length (nodes g)" and "t < length (nodes g)"
    using that 1 updateEdges_setFirst_topology [of t "updateEdges g s (setFirstEdgeWeight t w)" s w]
    by (auto intro: sameTopology_trans simp: length_nodes_updateEdges)
  show ?thesis
    using 1 2 by (auto simp: setEdgeWeight_def Let_def sameTopology_refl isDirected_updateEdges not_le)
qed

lemma setEdgeWeight_returns:
  assumes "s < length (nodes g)" and "isDirected g \<or> t < length (nodes g)"
  shows "fst (setEdgeWeight g s t w) = None"
  using assms by (auto simp: setEdgeWeight_def Let_def)

lemma setEdgeWeight_weight:
  assumes "m < length (nodes g)" and "i < portCount g m"
  shows "weightAt (snd (setEdgeWeight g s t w)) m i = weightAt g m i
       \<or> (((m = s \<and> targetAt g m i = t) \<or> (\<not> isDirected g \<and> m = t \<and> targetAt g m i = s))
           \<and> weightAt (snd (setEdgeWeight g s t w)) m i = w)"
proof (cases "s < length (nodes g)")
  case False
  then show ?thesis by (simp add: setEdgeWeight_def)
next
  case s: True
  let ?g1 = "updateEdges g s (setFirstEdgeWeight t w)"
  have top1: "sameTopology g ?g1" using s by (rule updateEdges_setFirst_topology)
  have w1: "weightAt ?g1 m i = weightAt g m i \<or> (m = s \<and> targetAt g m i = t \<and> weightAt ?g1 m i = w)"
    using updateEdges_setFirst_weight [OF s assms] .
  show ?thesis
  proof (cases "isDirected g \<or> \<not> t < length (nodes g)")
    case True
    then have "snd (setEdgeWeight g s t w) = ?g1"
      using s by (auto simp: setEdgeWeight_def Let_def)
    with w1 show ?thesis by auto
  next
    case False
    then have t: "t < length (nodes ?g1)" and und: "\<not> isDirected g"
      by (simp_all add: length_nodes_updateEdges)
    let ?g2 = "updateEdges ?g1 t (setFirstEdgeWeight s w)"
    from False s have g2: "snd (setEdgeWeight g s t w) = ?g2"
      by (auto simp: setEdgeWeight_def Let_def)
    from assms top1 have m1: "m < length (nodes ?g1)" and i1: "i < portCount ?g1 m"
      and tg: "targetAt ?g1 m i = targetAt g m i"
      by (simp_all add: sameTopology_def)
    from updateEdges_setFirst_weight [OF t m1 i1, of s w] tg
    have "weightAt ?g2 m i = weightAt ?g1 m i \<or> (m = t \<and> targetAt g m i = s \<and> weightAt ?g2 m i = w)"
      by simp
    with w1 und g2 show ?thesis by auto
  qed
qed







subsection \<open>Loops\<close>

lemma forEachJS_invariant:
  assumes "\<And>x s. x \<in> set xs \<Longrightarrow> I s \<Longrightarrow> I (snd (f x s))" and "I s"
  shows "I (snd (forEachJS f xs s))"
  using assms
proof (induction xs arbitrary: s)
  case Nil
  then show ?case by simp
next
  case (Cons x xs)
  from Cons.prems have step: "I (snd (f x s))" by simp
  show ?case
  proof (cases "f x s")
    case (Pair thrown s')
    with step have s': "I s'" by simp
    show ?thesis
    proof (cases thrown)
      case None
      with Pair Cons.IH [of s'] Cons.prems(1) s' show ?thesis by simp
    next
      case (Some e)
      with Pair s' show ?thesis by simp
    qed
  qed
qed

lemma forEachJS_accumulate:
  assumes "\<And>x P s. x \<in> set xs \<Longrightarrow> Inv P s \<Longrightarrow> fst (f x s) = None \<and> Inv (P \<union> A x) (snd (f x s))"
    and "Inv P s"
  shows "fst (forEachJS f xs s) = None \<and> Inv (P \<union> (\<Union>x \<in> set xs. A x)) (snd (forEachJS f xs s))"
  using assms
proof (induction xs arbitrary: P s)
  case Nil
  then show ?case by simp
next
  case (Cons x xs)
  from Cons.prems(1) [of x P s] Cons.prems(2)
  have fx: "fst (f x s) = None" and inv: "Inv (P \<union> A x) (snd (f x s))" by simp_all
  from Cons.IH [of "P \<union> A x" "snd (f x s)"] Cons.prems(1) inv
  have "fst (forEachJS f xs (snd (f x s))) = None
        \<and> Inv (P \<union> A x \<union> (\<Union>x \<in> set xs. A x)) (snd (forEachJS f xs (snd (f x s))))"
    by simp
  moreover have "forEachJS f (x # xs) s = forEachJS f xs (snd (f x s))"
    using fx by (cases "f x s") simp
  moreover have "P \<union> A x \<union> (\<Union>x \<in> set xs. A x) = P \<union> (\<Union>y \<in> set (x # xs). A y)"
    by auto
  ultimately show ?case by simp
qed

subsection \<open>setRandomEdgeWeightSigns\<close>

lemma setRandomSign_eq:
  "setRandomSign p n i s =
     (fst (setEdgeWeight (fst s) n (targetAt (fst s) n i)
             (if snd s 0 < p then \<bar>weightAt (fst s) n i\<bar> else - \<bar>weightAt (fst s) n i\<bar>)),
      snd (setEdgeWeight (fst s) n (targetAt (fst s) n i)
             (if snd s 0 < p then \<bar>weightAt (fst s) n i\<bar> else - \<bar>weightAt (fst s) n i\<bar>)),
      \<lambda>k. snd s (Suc k))"
  by (simp add: setRandomSign_def random_def Let_def targetAt_def weightAt_def split: prod.splits)

lemma setRandomSign_topology: "sameTopology (fst s) (fst (snd (setRandomSign p n i s)))"
  by (simp add: setRandomSign_eq setEdgeWeight_topology)

lemma setRandomEdgeWeightSigns_topology:
  "sameTopology (fst s) (fst (snd (setRandomEdgeWeightSigns p s)))"
proof -
  let ?I = "\<lambda>s' :: Graph \<times> rng. sameTopology (fst s) (fst s')"
  have inner: "?I (snd (forEachJS (setRandomSign p n) ports s'))" if "?I s'" for n ports s'
  proof (rule forEachJS_invariant [where I = ?I])
    show "?I s'" by (rule that)
  next
    fix i s''
    assume "?I s''"
    then show "?I (snd (setRandomSign p n i s''))"
      using setRandomSign_topology [of s'' p n i] by (rule sameTopology_trans)
  qed
  show ?thesis
    unfolding setRandomEdgeWeightSigns_def
    by (rule forEachJS_invariant [where I = ?I]) (simp_all add: inner sameTopology_refl)
qed

definition consistentMagnitudes :: "Graph \<Rightarrow> bool" where
  "consistentMagnitudes g =
     (\<forall>s < length (nodes g). \<forall>i < portCount g s.
        (\<forall>j < portCount g s. targetAt g s j = targetAt g s i \<longrightarrow> \<bar>weightAt g s j\<bar> = \<bar>weightAt g s i\<bar>)
        \<and> (\<not> isDirected g \<longrightarrow>
             targetAt g s i < length (nodes g)
             \<and> (\<forall>j < portCount g (targetAt g s i).
                   targetAt g (targetAt g s i) j = s
                   \<longrightarrow> \<bar>weightAt g (targetAt g s i) j\<bar> = \<bar>weightAt g s i\<bar>)))"

lemma consistentMagnitudes_same_source:
  assumes "consistentMagnitudes g" and "s < length (nodes g)" and "i < portCount g s"
    and "j < portCount g s" and "targetAt g s j = targetAt g s i"
  shows "\<bar>weightAt g s j\<bar> = \<bar>weightAt g s i\<bar>"
  using assms unfolding consistentMagnitudes_def by blast

lemma consistentMagnitudes_target:
  assumes "consistentMagnitudes g" and "\<not> isDirected g" and "s < length (nodes g)" and "i < portCount g s"
  shows "targetAt g s i < length (nodes g)"
  using assms unfolding consistentMagnitudes_def by blast

lemma consistentMagnitudes_mirror:
  assumes "consistentMagnitudes g" and "\<not> isDirected g" and "s < length (nodes g)" and "i < portCount g s"
    and "j < portCount g (targetAt g s i)" and "targetAt g (targetAt g s i) j = s"
  shows "\<bar>weightAt g (targetAt g s i) j\<bar> = \<bar>weightAt g s i\<bar>"
  using assms unfolding consistentMagnitudes_def by blast

lemma sameTopology_length: "sameTopology g g' \<Longrightarrow> length (nodes g') = length (nodes g)"
  by (simp add: sameTopology_def)

lemma sameTopology_isDirected: "sameTopology g g' \<Longrightarrow> isDirected g' = isDirected g"
  by (simp add: sameTopology_def)

lemma sameTopology_portCount:
  "sameTopology g g' \<Longrightarrow> n < length (nodes g) \<Longrightarrow> portCount g' n = portCount g n"
  by (simp add: sameTopology_def)

lemma sameTopology_targetAt:
  "sameTopology g g' \<Longrightarrow> n < length (nodes g) \<Longrightarrow> i < portCount g n \<Longrightarrow> targetAt g' n i = targetAt g n i"
  by (simp add: sameTopology_def)

lemma sameMagnitudes_weightAt:
  "sameMagnitudes g g' \<Longrightarrow> n < length (nodes g) \<Longrightarrow> i < portCount g n
     \<Longrightarrow> \<bar>weightAt g' n i\<bar> = \<bar>weightAt g n i\<bar>"
  by (simp add: sameMagnitudes_def)

lemma consistentMagnitudes_transfer:
  assumes top: "sameTopology g g'" and mag: "sameMagnitudes g g'" and c: "consistentMagnitudes g"
  shows "consistentMagnitudes g'"
  unfolding consistentMagnitudes_def
proof (intro allI impI conjI)
  fix s i j
  assume "s < length (nodes g')" and "i < portCount g' s" and "j < portCount g' s"
    and eq: "targetAt g' s j = targetAt g' s i"
  then have s: "s < length (nodes g)" and i: "i < portCount g s" and j: "j < portCount g s"
    using sameTopology_length [OF top] sameTopology_portCount [OF top] by simp_all
  from eq have "targetAt g s j = targetAt g s i"
    using sameTopology_targetAt [OF top s i] sameTopology_targetAt [OF top s j] by simp
  from consistentMagnitudes_same_source [OF c s i j this]
  show "\<bar>weightAt g' s j\<bar> = \<bar>weightAt g' s i\<bar>"
    using sameMagnitudes_weightAt [OF mag s i] sameMagnitudes_weightAt [OF mag s j] by simp
next
  fix s i
  assume "s < length (nodes g')" and "i < portCount g' s" and "\<not> isDirected g'"
  then have s: "s < length (nodes g)" and i: "i < portCount g s" and und: "\<not> isDirected g"
    using sameTopology_length [OF top] sameTopology_portCount [OF top] sameTopology_isDirected [OF top]
    by simp_all
  from consistentMagnitudes_target [OF c und s i]
  show "targetAt g' s i < length (nodes g')"
    using sameTopology_targetAt [OF top s i] sameTopology_length [OF top] by simp
next
  fix s i j
  assume "s < length (nodes g')" and "i < portCount g' s" and "\<not> isDirected g'"
    and j': "j < portCount g' (targetAt g' s i)" and eq: "targetAt g' (targetAt g' s i) j = s"
  then have s: "s < length (nodes g)" and i: "i < portCount g s" and und: "\<not> isDirected g"
    using sameTopology_length [OF top] sameTopology_portCount [OF top] sameTopology_isDirected [OF top]
    by simp_all
  have ti: "targetAt g' s i = targetAt g s i" by (rule sameTopology_targetAt [OF top s i])
  have t: "targetAt g s i < length (nodes g)" by (rule consistentMagnitudes_target [OF c und s i])
  from j' have j: "j < portCount g (targetAt g s i)"
    using ti sameTopology_portCount [OF top t] by simp
  from eq have "targetAt g (targetAt g s i) j = s"
    using ti sameTopology_targetAt [OF top t j] by simp
  from consistentMagnitudes_mirror [OF c und s i j this]
  show "\<bar>weightAt g' (targetAt g' s i) j\<bar> = \<bar>weightAt g' s i\<bar>"
    using ti sameMagnitudes_weightAt [OF mag s i] sameMagnitudes_weightAt [OF mag t j] by simp
qed

lemma setEdgeWeight_magnitudes:
  assumes c: "consistentMagnitudes g" and n: "n < length (nodes g)" and i: "i < portCount g n"
    and w: "\<bar>w\<bar> = \<bar>weightAt g n i\<bar>"
  shows "fst (setEdgeWeight g n (targetAt g n i) w) = None
       \<and> sameMagnitudes g (snd (setEdgeWeight g n (targetAt g n i) w))"
proof
  have "isDirected g \<or> targetAt g n i < length (nodes g)"
    using consistentMagnitudes_target [OF c _ n i] by blast
  with n show "fst (setEdgeWeight g n (targetAt g n i) w) = None"
    by (rule setEdgeWeight_returns)
next
  let ?t = "targetAt g n i"
  let ?g' = "snd (setEdgeWeight g n ?t w)"
  show "sameMagnitudes g ?g'"
    unfolding sameMagnitudes_def
  proof (intro allI impI)
    fix m j
    assume m: "m < length (nodes g)" and j: "j < portCount g m"
    from setEdgeWeight_weight [OF m j, of n ?t w]
    consider "weightAt ?g' m j = weightAt g m j"
      | "m = n" "targetAt g m j = ?t" "weightAt ?g' m j = w"
      | "\<not> isDirected g" "m = ?t" "targetAt g m j = n" "weightAt ?g' m j = w"
      by blast
    then show "\<bar>weightAt ?g' m j\<bar> = \<bar>weightAt g m j\<bar>"
    proof cases
      case 1
      then show ?thesis by simp
    next
      case 2
      from j 2(1,2) have "j < portCount g n" and "targetAt g n j = targetAt g n i" by simp_all
      from consistentMagnitudes_same_source [OF c n i this]
      have "\<bar>weightAt g n j\<bar> = \<bar>weightAt g n i\<bar>" .
      with 2(1,3) w show ?thesis by simp
    next
      case 3
      from j 3(2,3) have "j < portCount g ?t" and "targetAt g ?t j = n" by simp_all
      from consistentMagnitudes_mirror [OF c 3(1) n i this]
      have "\<bar>weightAt g ?t j\<bar> = \<bar>weightAt g n i\<bar>" .
      with 3(2,4) w show ?thesis by simp
    qed
  qed
qed

lemma sameMagnitudes_trans:
  assumes "sameTopology g g'" and "sameMagnitudes g g'" and "sameMagnitudes g' g''"
  shows "sameMagnitudes g g''"
  unfolding sameMagnitudes_def
proof (intro allI impI)
  fix n i
  assume n: "n < length (nodes g)" and i: "i < portCount g n"
  from n i have "n < length (nodes g')" and "i < portCount g' n"
    using sameTopology_length [OF assms(1)] sameTopology_portCount [OF assms(1)] by simp_all
  from sameMagnitudes_weightAt [OF assms(3) this] sameMagnitudes_weightAt [OF assms(2) n i]
  show "\<bar>weightAt g'' n i\<bar> = \<bar>weightAt g n i\<bar>" by simp
qed

lemma setRandomSign_magnitudes:
  assumes g0: "consistentMagnitudes g0"
    and inv: "sameTopology g0 (fst s) \<and> sameMagnitudes g0 (fst s)"
    and n: "n < length (nodes g0)" and i: "i < portCount g0 n"
  shows "fst (setRandomSign p n i s) = None
       \<and> sameTopology g0 (fst (snd (setRandomSign p n i s)))
       \<and> sameMagnitudes g0 (fst (snd (setRandomSign p n i s)))"
proof -
  let ?g = "fst s"
  let ?w = "if snd s 0 < p then \<bar>weightAt ?g n i\<bar> else - \<bar>weightAt ?g n i\<bar>"
  from inv g0 have c: "consistentMagnitudes ?g" by (blast intro: consistentMagnitudes_transfer)
  from inv n i have n': "n < length (nodes ?g)" and i': "i < portCount ?g n"
    by (simp_all add: sameTopology_def)
  have w: "\<bar>?w\<bar> = \<bar>weightAt ?g n i\<bar>" by simp
  from setEdgeWeight_magnitudes [OF c n' i' w]
  have r: "fst (setEdgeWeight ?g n (targetAt ?g n i) ?w) = None"
    and m: "sameMagnitudes ?g (snd (setEdgeWeight ?g n (targetAt ?g n i) ?w))" by simp_all
  have t: "sameTopology ?g (snd (setEdgeWeight ?g n (targetAt ?g n i) ?w))"
    by (rule setEdgeWeight_topology)
  from inv t have "sameTopology g0 (snd (setEdgeWeight ?g n (targetAt ?g n i) ?w))"
    by (blast intro: sameTopology_trans)
  moreover from inv m have "sameMagnitudes g0 (snd (setEdgeWeight ?g n (targetAt ?g n i) ?w))"
    by (blast intro: sameMagnitudes_trans)
  ultimately show ?thesis using r by (simp add: setRandomSign_eq)
qed

lemma setRandomEdgeWeightSigns_magnitudes:
  assumes "consistentMagnitudes g"
  shows "fst (setRandomEdgeWeightSigns p (g, r)) = None
       \<and> sameMagnitudes g (fst (snd (setRandomEdgeWeightSigns p (g, r))))"
proof -
  let ?Inv = "\<lambda>(P :: unit set) (s :: Graph \<times> rng). sameTopology g (fst s) \<and> sameMagnitudes g (fst s)"
  have inner: "fst (forEachJS (setRandomSign p n) [0..<portCount (fst s) n] s) = None
      \<and> ?Inv {} (snd (forEachJS (setRandomSign p n) [0..<portCount (fst s) n] s))"
    if n: "n < length (nodes g)" and inv: "?Inv {} s" for n s
  proof -
    from inv n have pc: "portCount (fst s) n = portCount g n" by (simp add: sameTopology_def)
    have "fst (forEachJS (setRandomSign p n) [0..<portCount g n] s) = None
      \<and> ?Inv ({} \<union> (\<Union>x \<in> set [0..<portCount g n]. {})) (snd (forEachJS (setRandomSign p n) [0..<portCount g n] s))"
    proof (rule forEachJS_accumulate [where Inv = ?Inv and A = "\<lambda>x. {}"])
      show "?Inv {} s" by (rule inv)
    next
      fix i P s'
      assume "i \<in> set [0..<portCount g n]" and "?Inv P s'"
      then show "fst (setRandomSign p n i s') = None \<and> ?Inv (P \<union> {}) (snd (setRandomSign p n i s'))"
        using setRandomSign_magnitudes [OF assms _ n, of s' i p] by simp
    qed
    with pc show ?thesis by simp
  qed
  have "fst (setRandomEdgeWeightSigns p (g, r)) = None
      \<and> ?Inv ({} \<union> (\<Union>x \<in> set [0..<length (nodes g)]. {})) (snd (setRandomEdgeWeightSigns p (g, r)))"
    unfolding setRandomEdgeWeightSigns_def fst_conv
  proof (rule forEachJS_accumulate [where Inv = ?Inv and A = "\<lambda>x. {}"])
    show "?Inv {} (g, r)" by (simp add: sameTopology_refl sameMagnitudes_def)
  next
    fix n P s
    assume "n \<in> set [0..<length (nodes g)]" and "?Inv P s"
    then show "fst (forEachJS (setRandomSign p n) [0..<length (edges (nodes (fst s) ! n))] s) = None
         \<and> ?Inv (P \<union> {}) (snd (forEachJS (setRandomSign p n) [0..<length (edges (nodes (fst s) ! n))] s))"
      using inner [of n s] by (simp add: portCount_def)
  qed
  then show ?thesis by simp
qed

section \<open>Mirror edges\<close>

definition validTargets :: "Graph \<Rightarrow> bool" where
  "validTargets g = (\<forall>n < length (nodes g). \<forall>i < portCount g n. targetAt g n i < length (nodes g))"








subsection \<open>The reshuffle makes every mirror agree\<close>




section \<open>The reshuffle: what it keeps\<close>

definition weightedPair :: Graph where
  "weightedPair =
     \<lparr>nodes = [\<lparr>Vertex.weight = 1, edges = [\<lparr>Edge.weight = 3, targetNode = 1\<rparr>]\<rparr>,
               \<lparr>Vertex.weight = 1, edges = [\<lparr>Edge.weight = 3, targetNode = 0\<rparr>]\<rparr>],
      isDirected = False\<rparr>"

lemma twoParallelEdges_reshuffled:
  "map (\<lambda>v. map Edge.weight (edges v))
     (nodes (fst (snd (setRandomEdgeWeightSigns 1 (twoParallelEdges, \<lambda>i. 0))))) = [[3, 3], []]"
  by code_simp

text \<open>
  C5, as stated, fails on a graph with two edges from node \<open>0\<close> to node \<open>1\<close> of weights
  \<open>2\<close> and \<open>3\<close>: both visits of the reshuffle write to the first edge that matches the
  target, so the first edge ends with magnitude \<open>3\<close>.
\<close>

theorem parallel_edges_change_magnitude:
  "\<not> sameMagnitudes twoParallelEdges (fst (snd (setRandomEdgeWeightSigns 1 (twoParallelEdges, \<lambda>i. 0))))"
proof
  let ?g' = "fst (snd (setRandomEdgeWeightSigns 1 (twoParallelEdges, \<lambda>i. 0)))"
  assume "sameMagnitudes twoParallelEdges ?g'"
  then have "\<bar>weightAt ?g' 0 0\<bar> = \<bar>weightAt twoParallelEdges 0 0\<bar>"
    by (simp add: sameMagnitudes_def twoParallelEdges_def portCount_def)
  moreover have "weightAt ?g' 0 0 = 3"
    using twoParallelEdges_reshuffled
    by (cases "nodes ?g'") (auto simp: weightAt_def)
  moreover have "weightAt twoParallelEdges 0 0 = 2"
    by (simp add: weightAt_def twoParallelEdges_def)
  ultimately show False by simp
qed

text \<open>
  C5, amended. For every graph and every survival probability, whatever
  \<open>setRandomEdgeWeightSigns\<close> does, it leaves the direction flag, the number of nodes, the
  node weights, the length of every edge list and every \<open>targetNode\<close> as they were. When
  the edges that share a source and a target have the same magnitude (and, in an
  undirected graph, every target is a node and the edges pointing back have that
  magnitude too), the call returns and the absolute value of every edge weight is the
  same before and after.
\<close>

theorem setRandomEdgeWeightSigns_keeps_magnitudes:
  "sameTopology g (fst (snd (setRandomEdgeWeightSigns p (g, r))))
   \<and> (consistentMagnitudes g \<longrightarrow>
        fst (setRandomEdgeWeightSigns p (g, r)) = None
        \<and> sameMagnitudes g (fst (snd (setRandomEdgeWeightSigns p (g, r)))))"
  using setRandomEdgeWeightSigns_topology [of "(g, r)" p] setRandomEdgeWeightSigns_magnitudes [of g p r]
  by simp

lemma weightedPair_consistent: "consistentMagnitudes weightedPair"
  by (simp add: consistentMagnitudes_def weightedPair_def portCount_def targetAt_def weightAt_def
      nth_Cons' All_less_Suc numeral_2_eq_2)

lemma weightedPair_reshuffled:
  "map (\<lambda>v. map Edge.weight (edges v))
     (nodes (fst (snd (setRandomEdgeWeightSigns (1/2) (weightedPair, \<lambda>i. 3/4))))) = [[-3], [-3]]"
  by code_simp

theorem setRandomEdgeWeightSigns_keeps_magnitudes_witness:
  "consistentMagnitudes weightedPair
   \<and> fst (setRandomEdgeWeightSigns (1/2) (weightedPair, \<lambda>i. 3/4)) = None
   \<and> sameTopology weightedPair (fst (snd (setRandomEdgeWeightSigns (1/2) (weightedPair, \<lambda>i. 3/4))))
   \<and> sameMagnitudes weightedPair (fst (snd (setRandomEdgeWeightSigns (1/2) (weightedPair, \<lambda>i. 3/4))))
   \<and> map (\<lambda>v. map Edge.weight (edges v))
        (nodes (fst (snd (setRandomEdgeWeightSigns (1/2) (weightedPair, \<lambda>i. 3/4))))) = [[-3], [-3]]"
  using setRandomEdgeWeightSigns_keeps_magnitudes [of weightedPair "1/2" "\<lambda>i. 3/4"]
    weightedPair_consistent weightedPair_reshuffled
  by blast

section \<open>The reshuffle: mirrors\<close>

definition completeWithLoops2 :: Graph where
  "completeWithLoops2 =
     \<lparr>nodes =
        [\<lparr>Vertex.weight = 1,
            edges = [\<lparr>Edge.weight = 1, targetNode = 0\<rparr>, \<lparr>Edge.weight = 1, targetNode = 0\<rparr>,
                     \<lparr>Edge.weight = 1, targetNode = 1\<rparr>]\<rparr>,
         \<lparr>Vertex.weight = 1,
            edges = [\<lparr>Edge.weight = 1, targetNode = 0\<rparr>, \<lparr>Edge.weight = 1, targetNode = 1\<rparr>,
                     \<lparr>Edge.weight = 1, targetNode = 1\<rparr>]\<rparr>],
      isDirected = False\<rparr>"


definition completeWithLoops2Reshuffled :: Graph where
  "completeWithLoops2Reshuffled = fst (snd (setRandomEdgeWeightSigns 0 (completeWithLoops2, \<lambda>i. 0)))"

lemma completeWithLoops2_reshuffled:
  "map (\<lambda>v. map (\<lambda>e. (Edge.weight e, targetNode e)) (edges v)) (nodes completeWithLoops2Reshuffled)
   = [[(- 1, 0), (1, 0), (- 1, 1)], [(- 1, 0), (- 1, 1), (1, 1)]]"
  by code_simp







section \<open>isConnected and the Erdos-Renyi generator\<close>

text \<open>
  \<open>isConnected\<close> marks a node when it leaves the queue, so a node can be queued more than
  once. The loop ends all the same: a step either marks a new node of the graph, or it
  leaves the marks alone and shortens the run of marked nodes at the head of the queue.
\<close>

definition visitedPrefix :: "bool jsArray \<Rightarrow> nat list \<Rightarrow> nat" where
  "visitedPrefix visited queue = length (takeWhile (isTrue visited) queue)"

lemma visitedPrefix_append_unvisited:
  "visitedPrefix visited (queue @ filter (\<lambda>a. \<not> isTrue visited a) adj) = visitedPrefix visited queue"
proof (cases "\<forall>x \<in> set queue. isTrue visited x")
  case True
  have none: "takeWhile (isTrue visited) (filter (\<lambda>a. \<not> isTrue visited a) adj) = []"
    by (cases "filter (\<lambda>a. \<not> isTrue visited a) adj") (auto dest: filter_eq_ConsD)
  from True have whole: "takeWhile (isTrue visited) queue = queue"
    by (simp add: takeWhile_eq_all_conv)
  from True have "takeWhile (isTrue visited) (queue @ filter (\<lambda>a. \<not> isTrue visited a) adj)
                  = queue @ takeWhile (isTrue visited) (filter (\<lambda>a. \<not> isTrue visited a) adj)"
    by (simp add: takeWhile_append2)
  then show ?thesis
    unfolding visitedPrefix_def none whole by simp
next
  case False
  then obtain x where "x \<in> set queue" and "\<not> isTrue visited x" by blast
  then show ?thesis
    by (simp add: visitedPrefix_def takeWhile_append1)
qed

function isConnectedLoop :: "Graph \<Rightarrow> bool jsArray \<Rightarrow> nat list \<Rightarrow> error + bool jsArray" where
  "isConnectedLoop g visited [] = Inr visited"
| "isConnectedLoop g visited (currentNode # queue) =
     (case getAdjacentNodes g currentNode of
        Inl e \<Rightarrow> Inl e
      | Inr adj \<Rightarrow>
          isConnectedLoop g (arraySet visited currentNode True)
            (queue @ filter (\<lambda>adjacentNode. \<not> isTrue (arraySet visited currentNode True) adjacentNode) adj))"
  by pat_completeness auto
termination
proof (relation "inv_image (less_than <*lex*> less_than)
          (\<lambda>(g, visited, queue). (unvisited (length (nodes g)) visited, visitedPrefix visited queue))")
  show "wf (inv_image (less_than <*lex*> less_than)
          (\<lambda>(g, visited, queue). (unvisited (length (nodes g)) visited, visitedPrefix visited queue)))"
    by (intro wf_inv_image wf_lex_prod wf_less_than)
next
  fix g visited currentNode queue adj
  assume adj: "getAdjacentNodes g currentNode = Inr adj"
  then have c: "currentNode < length (nodes g)"
    by (auto simp: getAdjacentNodes_def vertexAt_def split: if_splits)
  let ?v = "arraySet visited currentNode True"
  show "((g, ?v, queue @ filter (\<lambda>a. \<not> isTrue ?v a) adj), (g, visited, currentNode # queue))
        \<in> inv_image (less_than <*lex*> less_than)
            (\<lambda>(g, visited, queue). (unvisited (length (nodes g)) visited, visitedPrefix visited queue))"
  proof (cases "isTrue visited currentNode")
    case True
    then have same: "?v = visited" by (rule arraySet_isTrue_same)
    have "visitedPrefix visited (currentNode # queue) = Suc (visitedPrefix visited queue)"
      using True by (simp add: visitedPrefix_def)
    then show ?thesis
      using same visitedPrefix_append_unvisited [of visited queue adj] by simp
  next
    case False
    from unvisited_arraySet [OF c False] show ?thesis by simp
  qed
qed

definition isConnected :: "Graph \<Rightarrow> error + bool" where
  "isConnected g =
     (case isConnectedLoop g (arrayFill (getNodeCount g) False) [0] of
        Inl e \<Rightarrow> Inl e
      | Inr visited \<Rightarrow> Inr (list_all (\<lambda>node. node \<noteq> Some False) visited))"

text \<open>The test of the innermost loop of \<open>generateErdosRenyiRandomGraph\<close>, for the pair
  \<open>(i, j)\<close>; \<open>Math.random()\<close> is only called when the first conjunct holds.\<close>

definition erEdge :: "real \<Rightarrow> bool \<Rightarrow> nat \<Rightarrow> nat \<Rightarrow> Graph \<times> rng \<Rightarrow> (Graph \<times> rng) outcome" where
  "erEdge edgeProbability allowSelfLoops i j s =
     (if i \<noteq> j \<or> allowSelfLoops then
        (let (x, r) = random (snd s)
         in if x < edgeProbability
            then (let (thrown, g) = addEdge (fst s) i j 1 in (thrown, (g, r)))
            else (None, (fst s, r)))
      else (None, s))"

text \<open>One pass of the body of the \<open>do ... while\<close>, up to the connectivity test.\<close>

definition erCandidate :: "nat \<Rightarrow> real \<Rightarrow> bool \<Rightarrow> bool \<Rightarrow> rng \<Rightarrow> (Graph \<times> rng) outcome" where
  "erCandidate nodeCount edgeProbability d allowSelfLoops r =
     forEachJS
       (\<lambda>i. forEachJS (erEdge edgeProbability allowSelfLoops i) [(if d then 0 else i)..<nodeCount])
       [0..<nodeCount]
       (fold (\<lambda>i g. addNode g 1) [0..<nodeCount] (newGraph d), r)"

definition erFinish :: "Graph \<Rightarrow> int \<Rightarrow> error + Graph" where
  "erFinish graph maxAttempts = (if maxAttempts = 0 then Inl GenerationError else Inr graph)"

text \<open>
  The \<open>do ... while (requireConnected)\<close> loop and the test after it. The last argument is
  a log the code does not keep: the candidate graphs constructed so far, in order, so
  that a statement can speak of them. The result is what the function returns or throws,
  with the log.
\<close>

function erLoop ::
  "nat \<Rightarrow> real \<Rightarrow> bool \<Rightarrow> bool \<Rightarrow> bool \<Rightarrow> int \<Rightarrow> rng \<Rightarrow> Graph list \<Rightarrow> (error + Graph) \<times> Graph list" where
  "erLoop nodeCount edgeProbability d allowSelfLoops requireConnected maxAttempts r built =
     (case erCandidate nodeCount edgeProbability d allowSelfLoops r of
        (Some e, (graph, r')) \<Rightarrow> (Inl e, built @ [graph])
      | (None, (graph, r')) \<Rightarrow>
          if requireConnected then
            (case isConnected graph of
               Inl e \<Rightarrow> (Inl e, built @ [graph])
             | Inr True \<Rightarrow> (erFinish graph maxAttempts, built @ [graph])
             | Inr False \<Rightarrow>
                 if maxAttempts - 1 > 0
                 then erLoop nodeCount edgeProbability d allowSelfLoops True (maxAttempts - 1) r'
                        (built @ [graph])
                 else (erFinish graph (maxAttempts - 1), built @ [graph]))
          else (erFinish graph maxAttempts, built @ [graph]))"
  by pat_completeness auto
termination
  by (relation "measure (\<lambda>(nodeCount, edgeProbability, d, allowSelfLoops, requireConnected, maxAttempts, r, built). nat maxAttempts)") auto

declare erLoop.simps [simp del]

definition generateErdosRenyiRandomGraph ::
  "nat \<Rightarrow> real \<Rightarrow> bool \<Rightarrow> bool \<Rightarrow> bool \<Rightarrow> int \<Rightarrow> rng \<Rightarrow> (error + Graph) \<times> Graph list" where
  "generateErdosRenyiRandomGraph nodeCount edgeProbability d allowSelfLoops requireConnected maxAttempts r =
     erLoop nodeCount edgeProbability d allowSelfLoops requireConnected maxAttempts r []"

lemma isConnected_empty: "isConnected (newGraph d) = Inl TypeError"
  by (simp add: isConnected_def newGraph_def getNodeCount_def arrayFill_def getAdjacentNodes_def vertexAt_def)

lemma erCandidate_0: "erCandidate 0 p d sl r = (None, (newGraph d, r))"
  by (simp add: erCandidate_def)

text \<open>
  C7. With \<open>nodeCount = 0\<close> and \<open>requireConnected\<close> set, the first candidate is the empty
  graph, \<open>isConnected\<close> starts its search at node \<open>0\<close> and throws a \<open>TypeError\<close> on reading
  \<open>this.nodes[0].edges\<close>: the generator neither returns a graph nor throws its generation
  error, whatever \<open>maxAttempts\<close> is.
\<close>

theorem erdosRenyi_empty_graph_throws_TypeError:
  "generateErdosRenyiRandomGraph 0 edgeProbability d allowSelfLoops True maxAttempts r
   = (Inl TypeError, [newGraph d])"
  by (simp add: generateErdosRenyiRandomGraph_def erLoop.simps erCandidate_0 isConnected_empty)

subsection \<open>Candidates are well formed, and the connectivity test returns on them\<close>

lemma isConnectedLoop_returns:
  assumes "validTargets g" and "\<forall>q \<in> set queue. q < length (nodes g)"
  shows "\<exists>visited'. isConnectedLoop g visited queue = Inr visited'"
  using assms
proof (induction g visited queue rule: isConnectedLoop.induct)
  case (1 g visited)
  then show ?case by simp
next
  case (2 g visited currentNode queue)
  from "2.prems"(2) have c: "currentNode < length (nodes g)" by simp
  let ?adj = "map targetNode (edges (nodes g ! currentNode))"
  from c have adj: "getAdjacentNodes g currentNode = Inr ?adj"
    by (simp add: getAdjacentNodes_def vertexAt_def)
  have "\<forall>a \<in> set ?adj. a < length (nodes g)"
  proof
    fix a assume "a \<in> set ?adj"
    then obtain i where "i < length (edges (nodes g ! currentNode))"
      and "a = targetNode (edges (nodes g ! currentNode) ! i)"
      by (auto simp: in_set_conv_nth)
    with "2.prems"(1) c show "a < length (nodes g)"
      unfolding validTargets_def portCount_def targetAt_def by blast
  qed
  with "2.prems"(2)
  have "\<forall>q \<in> set (queue @ filter (\<lambda>a. \<not> isTrue (arraySet visited currentNode True) a) ?adj).
          q < length (nodes g)"
    by auto
  from "2.IH" [OF adj "2.prems"(1) this] adj show ?case by simp
qed

lemma isConnected_returns:
  assumes "validTargets g" and "0 < length (nodes g)"
  shows "\<exists>b. isConnected g = Inr b"
proof -
  from assms(2) have "\<forall>q \<in> set [0::nat]. q < length (nodes g)" by simp
  from isConnectedLoop_returns [OF assms(1) this]
  obtain visited' where "isConnectedLoop g (arrayFill (getNodeCount g) False) [0] = Inr visited'"
    by blast
  then show ?thesis by (simp add: isConnected_def)
qed

definition wellFormed :: "nat \<Rightarrow> Graph \<times> rng \<Rightarrow> bool" where
  "wellFormed n s = (length (nodes (fst s)) = n \<and> validTargets (fst s))"

lemma validTargets_updateEdges_append:
  assumes v: "validTargets g" and i: "i < length (nodes g)" and j: "j < length (nodes g)"
  shows "validTargets (updateEdges g i (\<lambda>es. es @ [\<lparr>Edge.weight = w, targetNode = j\<rparr>]))"
  unfolding validTargets_def
proof (intro allI impI)
  fix n k
  let ?g' = "updateEdges g i (\<lambda>es. es @ [\<lparr>Edge.weight = w, targetNode = j\<rparr>])"
  assume "n < length (nodes ?g')" and k: "k < portCount ?g' n"
  then have n: "n < length (nodes g)" by (simp add: length_nodes_updateEdges)
  show "targetAt ?g' n k < length (nodes ?g')"
  proof (cases "n = i \<and> k = portCount g n")
    case True
    with i j show ?thesis
      by (simp add: targetAt_def portCount_def nodes_updateEdges length_nodes_updateEdges)
  next
    case False
    with k i n have k': "k < portCount g n"
      by (auto simp: portCount_def nodes_updateEdges split: if_splits)
    with v n have "targetAt g n k < length (nodes g)" unfolding validTargets_def by blast
    moreover from k' i n have "targetAt ?g' n k = targetAt g n k"
      by (auto simp: targetAt_def portCount_def nodes_updateEdges nth_append)
    ultimately show ?thesis by (simp add: length_nodes_updateEdges)
  qed
qed

lemma addEdge_wellFormed:
  assumes "validTargets g" and "i < length (nodes g)" and "j < length (nodes g)"
  shows "fst (addEdge g i j w) = None \<and> length (nodes (snd (addEdge g i j w))) = length (nodes g)
       \<and> validTargets (snd (addEdge g i j w))"
proof -
  let ?g1 = "updateEdges g i (\<lambda>es. es @ [\<lparr>Edge.weight = w, targetNode = j\<rparr>])"
  have v1: "validTargets ?g1" by (rule validTargets_updateEdges_append [OF assms])
  have "validTargets (updateEdges ?g1 j (\<lambda>es. es @ [\<lparr>Edge.weight = w, targetNode = i\<rparr>]))"
    using validTargets_updateEdges_append [OF v1, of j i w] assms(2,3)
    by (simp add: length_nodes_updateEdges)
  with v1 assms(2,3) show ?thesis
    by (simp add: addEdge_def Let_def length_nodes_updateEdges isDirected_updateEdges)
qed

lemma erEdge_wellFormed:
  assumes "wellFormed n s" and "i < n" and "j < n"
  shows "fst (erEdge p sl i j s) = None \<and> wellFormed n (snd (erEdge p sl i j s))"
proof -
  from assms have "fst (addEdge (fst s) i j 1) = None
       \<and> length (nodes (snd (addEdge (fst s) i j 1))) = n
       \<and> validTargets (snd (addEdge (fst s) i j 1))"
    using addEdge_wellFormed [of "fst s" i j 1] by (simp add: wellFormed_def)
  with assms(1) show ?thesis
    by (cases "addEdge (fst s) i j 1")
       (auto simp: erEdge_def random_def wellFormed_def Let_def)
qed

lemma validTargets_addNodes:
  "validTargets (fold (\<lambda>i g. addNode g 1) xs (newGraph d))
   \<and> length (nodes (fold (\<lambda>i g. addNode g 1) xs (newGraph d))) = length xs"
proof (induction xs rule: rev_induct)
  case Nil
  show ?case by (simp add: validTargets_def newGraph_def)
next
  case (snoc x xs)
  let ?g = "fold (\<lambda>i g. addNode g 1) xs (newGraph d)"
  from snoc have v: "validTargets ?g" and l: "length (nodes ?g) = length xs" by simp_all
  have "validTargets (addNode ?g 1)"
    unfolding validTargets_def
  proof (intro allI impI)
    fix n k
    assume n: "n < length (nodes (addNode ?g 1))" and k: "k < portCount (addNode ?g 1) n"
    show "targetAt (addNode ?g 1) n k < length (nodes (addNode ?g 1))"
    proof (cases "n < length (nodes ?g)")
      case True
      with k have "k < portCount ?g n" by (simp add: portCount_def addNode_def nth_append)
      with v True have "targetAt ?g n k < length (nodes ?g)" unfolding validTargets_def by blast
      with True show ?thesis by (simp add: targetAt_def addNode_def nth_append)
    next
      case False
      with n have "n = length (nodes ?g)" by (simp add: addNode_def)
      with k show ?thesis by (simp add: portCount_def addNode_def)
    qed
  qed
  with l show ?case by (simp add: addNode_def)
qed

lemma erCandidate_wellFormed:
  "fst (erCandidate n p d sl r) = None \<and> wellFormed n (snd (erCandidate n p d sl r))"
proof -
  let ?Inv = "\<lambda>(P :: unit set) (s :: Graph \<times> rng). wellFormed n s"
  have inner: "fst (forEachJS (erEdge p sl i) js s) = None \<and> wellFormed n (snd (forEachJS (erEdge p sl i) js s))"
    if "i < n" and "\<forall>j \<in> set js. j < n" and "wellFormed n s" for i js s
  proof -
    have "fst (forEachJS (erEdge p sl i) js s) = None
        \<and> ?Inv ({} \<union> (\<Union>x \<in> set js. {})) (snd (forEachJS (erEdge p sl i) js s))"
    proof (rule forEachJS_accumulate [where Inv = ?Inv and A = "\<lambda>x. {}"])
      show "?Inv {} s" using that(3) by simp
    next
      fix j P s'
      assume "j \<in> set js" and "?Inv P s'"
      with that(1,2) show "fst (erEdge p sl i j s') = None \<and> ?Inv (P \<union> {}) (snd (erEdge p sl i j s'))"
        using erEdge_wellFormed [of n s' i j p sl] by simp
    qed
    then show ?thesis by simp
  qed
  have "fst (erCandidate n p d sl r) = None
      \<and> ?Inv ({} \<union> (\<Union>x \<in> set [0..<n]. {})) (snd (erCandidate n p d sl r))"
    unfolding erCandidate_def
  proof (rule forEachJS_accumulate [where Inv = ?Inv and A = "\<lambda>x. {}"])
    show "?Inv {} (fold (\<lambda>i g. addNode g 1) [0..<n] (newGraph d), r)"
      using validTargets_addNodes [of "[0..<n]" d] by (simp add: wellFormed_def)
  next
    fix i P s
    assume "i \<in> set [0..<n]" and "?Inv P s"
    then show "fst (forEachJS (erEdge p sl i) [(if d then 0 else i)..<n] s) = None
         \<and> ?Inv (P \<union> {}) (snd (forEachJS (erEdge p sl i) [(if d then 0 else i)..<n] s))"
      using inner [of i "[(if d then 0 else i)..<n]" s] by simp
  qed
  then show ?thesis by simp
qed

definition candidateOf :: "nat \<Rightarrow> real \<Rightarrow> bool \<Rightarrow> bool \<Rightarrow> rng \<Rightarrow> Graph" where
  "candidateOf n p d sl r = fst (snd (erCandidate n p d sl r))"

lemma erCandidate_eq:
  "erCandidate n p d sl r = (None, (candidateOf n p d sl r, snd (snd (erCandidate n p d sl r))))"
  using erCandidate_wellFormed [of n p d sl r]
  by (cases "erCandidate n p d sl r") (auto simp: candidateOf_def)

lemma candidateOf_isConnected:
  assumes "0 < n"
  shows "\<exists>b. isConnected (candidateOf n p d sl r) = Inr b"
  using erCandidate_wellFormed [of n p d sl r] assms isConnected_returns [of "candidateOf n p d sl r"]
  by (simp add: wellFormed_def candidateOf_def)

lemma erLoop_step:
  assumes "0 < n"
  obtains g r' b where "isConnected g = Inr b"
    and "erLoop n p d sl True m r built =
           (if b then (erFinish g m, built @ [g])
            else if m - 1 > 0 then erLoop n p d sl True (m - 1) r' (built @ [g])
            else (erFinish g (m - 1), built @ [g]))"
proof -
  obtain b where b: "isConnected (candidateOf n p d sl r) = Inr b"
    using candidateOf_isConnected [OF assms] by blast
  have "erLoop n p d sl True m r built =
           (if b then (erFinish (candidateOf n p d sl r) m, built @ [candidateOf n p d sl r])
            else if m - 1 > 0
                 then erLoop n p d sl True (m - 1) (snd (snd (erCandidate n p d sl r)))
                        (built @ [candidateOf n p d sl r])
                 else (erFinish (candidateOf n p d sl r) (m - 1), built @ [candidateOf n p d sl r]))"
    by (subst erLoop.simps, subst erCandidate_eq) (simp add: b)
  with b show thesis by (rule that)
qed

lemma erLoop_retries:
  assumes "0 < n"
  shows "\<exists>new. snd (erLoop n p d sl True (int (Suc k)) r built) = built @ new
           \<and> new \<noteq> [] \<and> length new \<le> Suc k
           \<and> ((fst (erLoop n p d sl True (int (Suc k)) r built) = Inl GenerationError
                \<and> (\<forall>g \<in> set new. isConnected g = Inr False))
               \<or> (\<exists>g. fst (erLoop n p d sl True (int (Suc k)) r built) = Inr g
                       \<and> isConnected g = Inr True \<and> g = last new))"
proof (induction k arbitrary: r built)
  case 0
  obtain g r' b where b: "isConnected g = Inr b"
    and step: "erLoop n p d sl True (int (Suc 0)) r built =
           (if b then (erFinish g (int (Suc 0)), built @ [g])
            else if int (Suc 0) - 1 > 0 then erLoop n p d sl True (int (Suc 0) - 1) r' (built @ [g])
            else (erFinish g (int (Suc 0) - 1), built @ [g]))"
    by (rule erLoop_step [OF assms])
  show ?case
  proof (cases b)
    case True
    with step b have "fst (erLoop n p d sl True (int (Suc 0)) r built) = Inr g"
      and "snd (erLoop n p d sl True (int (Suc 0)) r built) = built @ [g]"
      by (simp_all add: erFinish_def)
    with b True show ?thesis by simp
  next
    case False
    with step have "fst (erLoop n p d sl True (int (Suc 0)) r built) = Inl GenerationError"
      and "snd (erLoop n p d sl True (int (Suc 0)) r built) = built @ [g]"
      by (simp_all add: erFinish_def)
    with b False show ?thesis by simp
  qed
next
  case (Suc k)
  obtain g r' b where b: "isConnected g = Inr b"
    and step: "erLoop n p d sl True (int (Suc (Suc k))) r built =
           (if b then (erFinish g (int (Suc (Suc k))), built @ [g])
            else if int (Suc (Suc k)) - 1 > 0
                 then erLoop n p d sl True (int (Suc (Suc k)) - 1) r' (built @ [g])
                 else (erFinish g (int (Suc (Suc k)) - 1), built @ [g]))"
    by (rule erLoop_step [OF assms])
  show ?case
  proof (cases b)
    case True
    with step b have "fst (erLoop n p d sl True (int (Suc (Suc k))) r built) = Inr g"
      and "snd (erLoop n p d sl True (int (Suc (Suc k))) r built) = built @ [g]"
      by (simp_all add: erFinish_def)
    with b True show ?thesis by simp
  next
    case False
    have m: "int (Suc (Suc k)) - 1 = int (Suc k)" by simp
    from step False
    have eq: "erLoop n p d sl True (int (Suc (Suc k))) r built
              = erLoop n p d sl True (int (Suc k)) r' (built @ [g])"
      unfolding m by simp
    from Suc.IH [of r' "built @ [g]"]
    obtain new where new: "snd (erLoop n p d sl True (int (Suc k)) r' (built @ [g])) = (built @ [g]) @ new"
      and ne: "new \<noteq> []" and len: "length new \<le> Suc k"
      and res: "(fst (erLoop n p d sl True (int (Suc k)) r' (built @ [g])) = Inl GenerationError
                \<and> (\<forall>g \<in> set new. isConnected g = Inr False))
               \<or> (\<exists>g'. fst (erLoop n p d sl True (int (Suc k)) r' (built @ [g])) = Inr g'
                       \<and> isConnected g' = Inr True \<and> g' = last new)"
      by blast
    show ?thesis
    proof (intro exI [of _ "g # new"] conjI)
      show "snd (erLoop n p d sl True (int (Suc (Suc k))) r built) = built @ g # new"
        unfolding eq using new by simp
      show "g # new \<noteq> []" by simp
      show "length (g # new) \<le> Suc (Suc k)" using len by simp
      show "(fst (erLoop n p d sl True (int (Suc (Suc k))) r built) = Inl GenerationError
                \<and> (\<forall>g \<in> set (g # new). isConnected g = Inr False))
               \<or> (\<exists>g'. fst (erLoop n p d sl True (int (Suc (Suc k))) r built) = Inr g'
                       \<and> isConnected g' = Inr True \<and> g' = last (g # new))"
        unfolding eq using res b False ne by auto
    qed
  qed
qed

text \<open>
  With at least one node the claim of C7 holds: for \<open>requireConnected\<close> set and
  \<open>maxAttempts \<ge> 1\<close>, at least one and at most \<open>maxAttempts\<close> candidates are constructed,
  the generation error is thrown exactly when \<open>isConnected\<close> holds of none of them, and
  otherwise the last candidate is returned and \<open>isConnected\<close> holds of it.
\<close>

theorem erdosRenyi_retries_until_connected:
  assumes "0 < nodeCount" and "1 \<le> maxAttempts"
  shows "snd (generateErdosRenyiRandomGraph nodeCount p d sl True maxAttempts r) \<noteq> []
       \<and> int (length (snd (generateErdosRenyiRandomGraph nodeCount p d sl True maxAttempts r))) \<le> maxAttempts
       \<and> ((fst (generateErdosRenyiRandomGraph nodeCount p d sl True maxAttempts r) = Inl GenerationError)
            = (\<forall>g \<in> set (snd (generateErdosRenyiRandomGraph nodeCount p d sl True maxAttempts r)).
                 isConnected g \<noteq> Inr True))
       \<and> (fst (generateErdosRenyiRandomGraph nodeCount p d sl True maxAttempts r) \<noteq> Inl GenerationError
            \<longrightarrow> (\<exists>g. fst (generateErdosRenyiRandomGraph nodeCount p d sl True maxAttempts r) = Inr g
                     \<and> g = last (snd (generateErdosRenyiRandomGraph nodeCount p d sl True maxAttempts r))
                     \<and> isConnected g = Inr True))"
proof -
  from assms(2) obtain k where k: "maxAttempts = int (Suc k)"
    by (metis Suc_pred' nat_0_less_mult_iff nat_int of_nat_0_less_iff zero_less_imp_eq_int
        int_one_le_iff_zero_less)
  let ?res = "fst (erLoop nodeCount p d sl True (int (Suc k)) r [])"
  let ?log = "snd (erLoop nodeCount p d sl True (int (Suc k)) r [])"
  from erLoop_retries [OF assms(1), of p d sl k r "[]"]
  obtain new where log: "?log = new" and ne: "new \<noteq> []" and len: "length new \<le> Suc k"
    and res: "(?res = Inl GenerationError \<and> (\<forall>g \<in> set new. isConnected g = Inr False))
               \<or> (\<exists>g. ?res = Inr g \<and> isConnected g = Inr True \<and> g = last new)"
    by auto
  from res show ?thesis
  proof
    assume "?res = Inl GenerationError \<and> (\<forall>g \<in> set new. isConnected g = Inr False)"
    then show ?thesis
      unfolding generateErdosRenyiRandomGraph_def k log using ne len by auto
  next
    assume "\<exists>g. ?res = Inr g \<and> isConnected g = Inr True \<and> g = last new"
    then obtain g where g: "?res = Inr g" "isConnected g = Inr True" "g = last new" by blast
    with ne have "g \<in> set new" by simp
    with g show ?thesis
      unfolding generateErdosRenyiRandomGraph_def k log using ne len by auto
  qed
qed

lemma erdosRenyi_three_attempts:
  "fst (generateErdosRenyiRandomGraph 3 (1/2) False False True 3 (\<lambda>i. 1)) = Inl GenerationError"
  "length (snd (generateErdosRenyiRandomGraph 3 (1/2) False False True 3 (\<lambda>i. 1))) = 3"
  "fst (generateErdosRenyiRandomGraph 3 (1/2) False False True 3 (\<lambda>i. if i < 3 then 1 else 0)) = Inr
     \<lparr>nodes =
        [\<lparr>Vertex.weight = 1,
            edges = [\<lparr>Edge.weight = 1, targetNode = 1\<rparr>, \<lparr>Edge.weight = 1, targetNode = 2\<rparr>]\<rparr>,
         \<lparr>Vertex.weight = 1,
            edges = [\<lparr>Edge.weight = 1, targetNode = 0\<rparr>, \<lparr>Edge.weight = 1, targetNode = 2\<rparr>]\<rparr>,
         \<lparr>Vertex.weight = 1,
            edges = [\<lparr>Edge.weight = 1, targetNode = 0\<rparr>, \<lparr>Edge.weight = 1, targetNode = 1\<rparr>]\<rparr>],
      isDirected = False\<rparr>"
  "length (snd (generateErdosRenyiRandomGraph 3 (1/2) False False True 3 (\<lambda>i. if i < 3 then 1 else 0))) = 2"
  by code_simp+

section \<open>robot.ts: robots and coordinators\<close>

record Robot =
  robotId :: nat
  startNode :: nat
  currentNode :: nat
  portsTraversed :: "int list"

datatype RobotState = Active | Discarded

record RandomWalkRobot = Robot +
  state :: RobotState

text \<open>
  The fields of the abstract class \<open>RobotCoordinator\<close>. \<open>lambda\<close> is a positive integer or
  \<open>Infinity\<close> when it comes from the configuration; the constructor itself takes any
  number, and \<open>0\<close> is kept here to show what the code does with it.
\<close>

record 'r RobotCoordinator =
  graph :: Graph
  graphHistory :: "(nat \<times> Vertex list) list"
  visitedNodes :: "bool jsArray"
  robots :: "'r list"
  robotStartingNode :: nat
  numberOfRobotsToGenerate :: nat
  robotIdCount :: nat
  stepNumber :: nat
  lambda :: enat
  edgeSurvivalProbability :: real

record GlobalCoordinator = "Robot RobotCoordinator" +
  parentPorts :: "int jsArray"
  childPorts :: "nat list jsArray"

definition andThen :: "'s outcome \<Rightarrow> ('s \<Rightarrow> 's outcome) \<Rightarrow> 's outcome" where
  "andThen r f = (case r of (Some e, s) \<Rightarrow> (Some e, s) | (None, s) \<Rightarrow> f s)"

definition createRobot ::
  "(Robot \<Rightarrow> 'r) \<Rightarrow> nat \<Rightarrow> ('r, 'z) RobotCoordinator_scheme \<Rightarrow> ('r, 'z) RobotCoordinator_scheme" where
  "createRobot initializeRobot startingNode c =
     c\<lparr>robots := robots c @
          [initializeRobot \<lparr>robotId = robotIdCount c, startNode = startingNode,
                            currentNode = startingNode, portsTraversed = []\<rparr>],
       robotIdCount := Suc (robotIdCount c)\<rparr>"

definition createRobots ::
  "(Robot \<Rightarrow> 'r) \<Rightarrow> nat \<Rightarrow> nat \<Rightarrow> ('r, 'z) RobotCoordinator_scheme \<Rightarrow> ('r, 'z) RobotCoordinator_scheme" where
  "createRobots initializeRobot numberOfRobots startingNode c =
     fold (\<lambda>i. createRobot initializeRobot startingNode) [0..<numberOfRobots] c"

text \<open>\<open>this.stepNumber % this.lambda === 0\<close>: the remainder by \<open>Infinity\<close> is the step
  number itself, and the remainder by \<open>0\<close> is \<open>NaN\<close>, which equals nothing.\<close>

definition reshuffleDue :: "nat \<Rightarrow> enat \<Rightarrow> bool" where
  "reshuffleDue n l = (case l of enat k \<Rightarrow> 0 < k \<and> n mod k = 0 | \<infinity> \<Rightarrow> n = 0)"

text \<open>The first statement of every \<open>step()\<close>.\<close>

definition reshuffle ::
  "('r, 'z) RobotCoordinator_scheme \<times> rng \<Rightarrow> (('r, 'z) RobotCoordinator_scheme \<times> rng) outcome" where
  "reshuffle s =
     (let c = fst s
      in if reshuffleDue (stepNumber c) (lambda c) then
           (let c1 = c\<lparr>graphHistory := graphHistory c @ [(stepNumber c, deepCopyNodes (graph c))]\<rparr>;
                (thrown, (g, r)) = setRandomEdgeWeightSigns (edgeSurvivalProbability c) (graph c1, snd s)
            in (thrown, (c1\<lparr>graph := g\<rparr>, r)))
         else (None, s))"

definition incrementStep ::
  "('r, 'z) RobotCoordinator_scheme \<times> rng \<Rightarrow> (('r, 'z) RobotCoordinator_scheme \<times> rng) outcome" where
  "incrementStep s = (None, ((fst s)\<lparr>stepNumber := Suc (stepNumber (fst s))\<rparr>, snd s))"

subsection \<open>The two random walks\<close>

text \<open>
  \<open>initializeRobot\<close> of the two random walks: \<open>robot.state = 'active'\<close>.

  Both classes declare \<open>robots: RandomWalkRobot[] = []\<close> again. The fields of a derived
  class are initialised when the constructor of the base class has run, so the robots that
  the base constructor created are dropped: a random walk starts with no robot, and with
  \<open>robotIdCount\<close> at the number of robots it was asked for. Robots come in by
  \<open>createRobots\<close>, which is a public method.
\<close>

definition activeRobot :: "Robot \<Rightarrow> RandomWalkRobot" where
  "activeRobot robot = Robot.extend robot (RandomWalkRobot.fields Active)"

definition newRandomWalkCoordinator ::
  "Graph \<Rightarrow> enat \<Rightarrow> real \<Rightarrow> nat \<Rightarrow> nat \<Rightarrow> RandomWalkRobot RobotCoordinator" where
  "newRandomWalkCoordinator g l p numberOfRobots startingNode =
     (createRobots activeRobot numberOfRobots startingNode
        \<lparr>graph = g, graphHistory = [],
         visitedNodes = arraySet (arrayFill (getNodeCount g) False) startingNode True,
         robots = [], robotStartingNode = startingNode, numberOfRobotsToGenerate = numberOfRobots,
         robotIdCount = 0, stepNumber = 0, lambda = l, edgeSurvivalProbability = p\<rparr>)
     \<lparr>robots := []\<rparr>"

text \<open>
  The part the two random walks share, from \<open>getNumberOfPorts\<close> on: the robot in place
  \<open>i\<close> of \<open>this.robots\<close> draws a port and tries it.
\<close>

definition randomWalkMove ::
  "nat \<Rightarrow> RandomWalkRobot RobotCoordinator \<times> rng \<Rightarrow> (RandomWalkRobot RobotCoordinator \<times> rng) outcome" where
  "randomWalkMove i s =
     (let c = fst s; robot = robots c ! i
      in case getNumberOfPorts (graph c) (currentNode robot) of
           Inl e \<Rightarrow> (Some e, s)
         | Inr numberOfPorts \<Rightarrow>
             if numberOfPorts = 0
             then (None, (c\<lparr>robots := (robots c)[i := robot\<lparr>state := Discarded\<rparr>]\<rparr>, snd s))
             else
               (let (x, r) = random (snd s);
                    port = \<lfloor>timesJS x (real numberOfPorts)\<rfloor>
                in case getEdgeWeightFromPort (graph c) (currentNode robot) port of
                     Inl e \<Rightarrow> (Some e, (c, r))
                   | Inr w \<Rightarrow>
                       if w < 0
                       then (None, (c\<lparr>robots := (robots c)
                                       [i := robot\<lparr>portsTraversed := portsTraversed robot @ [- port - 100]\<rparr>]\<rparr>, r))
                       else
                         (case getAdjacentNodeFromPort (graph c) (currentNode robot) port of
                            Inl e \<Rightarrow> (Some e, (c, r))
                          | Inr n \<Rightarrow>
                              (None, (c\<lparr>robots := (robots c)
                                        [i := robot\<lparr>currentNode := n,
                                                    portsTraversed := portsTraversed robot @ [port]\<rparr>]\<rparr>, r)))))"

definition dispersionMove ::
  "nat \<Rightarrow> RandomWalkRobot RobotCoordinator \<times> rng \<Rightarrow> (RandomWalkRobot RobotCoordinator \<times> rng) outcome" where
  "dispersionMove i s =
     (let c = fst s; robot = robots c ! i
      in if \<not> isTrue (visitedNodes c) (currentNode robot)
         then (None, (c\<lparr>visitedNodes := arraySet (visitedNodes c) (currentNode robot) True,
                         robots := (robots c)[i := robot\<lparr>state := Discarded\<rparr>]\<rparr>, snd s))
         else randomWalkMove i s)"

definition stepRandomWalkDispersion ::
  "RandomWalkRobot RobotCoordinator \<times> rng \<Rightarrow> (RandomWalkRobot RobotCoordinator \<times> rng) outcome" where
  "stepRandomWalkDispersion s =
     andThen (reshuffle s) (\<lambda>s1.
     andThen (forEachJS dispersionMove
                (filter (\<lambda>i. state (robots (fst s1) ! i) = Active) [0..<length (robots (fst s1))]) s1)
       incrementStep)"

definition explorationMove ::
  "nat \<Rightarrow> RandomWalkRobot RobotCoordinator \<times> rng \<Rightarrow> (RandomWalkRobot RobotCoordinator \<times> rng) outcome" where
  "explorationMove i s =
     (let c = fst s; robot = robots c ! i;
          c1 = (if \<not> isTrue (visitedNodes c) (currentNode robot)
                then c\<lparr>visitedNodes := arraySet (visitedNodes c) (currentNode robot) True\<rparr> else c)
      in randomWalkMove i (c1, snd s))"

definition stepRandomWalkExploration ::
  "RandomWalkRobot RobotCoordinator \<times> rng \<Rightarrow> (RandomWalkRobot RobotCoordinator \<times> rng) outcome" where
  "stepRandomWalkExploration s =
     andThen (reshuffle s) (\<lambda>s1.
     andThen (forEachJS explorationMove [0..<length (robots (fst s1))] s1)
       incrementStep)"

subsection \<open>The two explorations with global communication\<close>

text \<open>\<open>xs.slice(start, end)\<close>; a negative index counts from the end.\<close>

definition sliceJS :: "'a list \<Rightarrow> int \<Rightarrow> int \<Rightarrow> 'a list" where
  "sliceJS xs start end =
     (let n = int (length xs);
          s = (if start < 0 then max (n + start) 0 else min start n);
          e = (if end < 0 then max (n + end) 0 else min end n)
      in take (nat (e - s)) (drop (nat s) xs))"

text \<open>The results of the calls a \<open>map\<close> or \<open>forEach\<close> makes in order: the first exception
  thrown ends it.\<close>

fun collect :: "(error + 'a) list \<Rightarrow> error + 'a list" where
  "collect [] = Inr []"
| "collect (Inl e # rs) = Inl e"
| "collect (Inr x # rs) = (case collect rs of Inl e \<Rightarrow> Inl e | Inr xs \<Rightarrow> Inr (x # xs))"

text \<open>
  \<open>computeBoundaryNodesOnPort\<close> calls itself along \<open>childPorts\<close>, which on a graph with a
  cycle need not end; the engine then throws a \<open>RangeError\<close> when its call stack is full.
  The first argument is the depth of calls the stack still has room for.
\<close>

fun computeBoundaryNodesOnPort :: "nat \<Rightarrow> GlobalCoordinator \<Rightarrow> nat \<Rightarrow> nat \<Rightarrow> error + nat" where
  "computeBoundaryNodesOnPort 0 c nodeId port = Inl RangeError"
| "computeBoundaryNodesOnPort (Suc depth) c nodeId port =
     (case getAdjacentNodeFromPort (graph c) nodeId (int port) of
        Inl e \<Rightarrow> Inl e
      | Inr subtreeRoot \<Rightarrow>
          if \<not> isTrue (visitedNodes c) nodeId \<or> \<not> isTrue (visitedNodes c) subtreeRoot then Inr 1
          else
            (case arrayGet (childPorts c) subtreeRoot of
               None \<Rightarrow> Inl TypeError
             | Some ports \<Rightarrow>
                 (case collect (map (computeBoundaryNodesOnPort depth c subtreeRoot) ports) of
                    Inl e \<Rightarrow> Inl e
                  | Inr counts \<Rightarrow> Inr (sum_list counts))))"

text \<open>
  The share of the robots on a node that goes to a child port,
  \<open>Math.floor(count / boundaryCountSum * robotsOnNode.length)\<close>: the quotient is rounded,
  then the product, so a share that is a whole number exactly can come out one less. The
  robots that are left over go to the port with the largest count. The code computes the
  shares before it tests the sum for 0 and drops them when it is 0 (they are \<open>NaN\<close> then);
  here they are computed after the test, for a sum that is not 0.
\<close>

definition robotsToEachChildPort :: "nat list \<Rightarrow> nat \<Rightarrow> int list" where
  "robotsToEachChildPort boundaryCount numberOnNode =
     (let boundaryCountSum = sum_list boundaryCount;
          shares = map (\<lambda>count. \<lfloor>timesJS (divideJS (real count) (real boundaryCountSum))
                                         (real numberOnNode)\<rfloor>) boundaryCount;
          sharesSum = sum_list shares
      in if sharesSum \<noteq> int numberOnNode then
           (let maxBoundaryNumber = fold max boundaryCount 0;
                maxBoundaryNumberIndex = findIndexJS (\<lambda>count. count = maxBoundaryNumber) boundaryCount
            in if 0 \<le> maxBoundaryNumberIndex
               then shares[nat maxBoundaryNumberIndex :=
                      shares ! nat maxBoundaryNumberIndex + (int numberOnNode - sharesSum)]
               else shares)
         else shares)"

text \<open>The last \<open>forEach\<close> of the planning: the robots on the node, in their order, are
  dealt to the child ports.\<close>

definition assignPorts :: "Robot list \<Rightarrow> (int \<times> nat) list \<Rightarrow> int jsArray \<Rightarrow> int jsArray" where
  "assignPorts robotsOnNode sharesAndPorts plannedPorts =
     snd (fold (\<lambda>(count, childPort) (robotIndex, planned).
                  (robotIndex + count,
                   fold (\<lambda>robot planned'. arraySet planned' (robotId robot) (int childPort))
                     (sliceJS robotsOnNode robotIndex (count + robotIndex)) planned))
            sharesAndPorts (0, plannedPorts))"

text \<open>The planning for one node, from the boundary counts on; the state is the
  coordinator and the local array \<open>plannedPorts\<close>.\<close>

definition planNode ::
  "nat \<Rightarrow> nat \<Rightarrow> GlobalCoordinator \<times> int jsArray \<Rightarrow> (GlobalCoordinator \<times> int jsArray) outcome" where
  "planNode stackLimit node s =
     (let c = fst s
      in case arrayGet (childPorts c) node of
           None \<Rightarrow> (Some TypeError, s)
         | Some ports \<Rightarrow>
             (case collect (map (computeBoundaryNodesOnPort stackLimit c node) ports) of
                Inl e \<Rightarrow> (Some e, s)
              | Inr boundaryCount \<Rightarrow>
                  (let robotsOnNode = filter (\<lambda>robot. currentNode robot = node) (robots c)
                   in if sum_list boundaryCount = 0
                      then (None, (c, fold (\<lambda>robot planned. arraySet planned (robotId robot) (- 1))
                                        robotsOnNode (snd s)))
                      else (None, (c, assignPorts robotsOnNode
                                        (zip (robotsToEachChildPort boundaryCount (length robotsOnNode)) ports)
                                        (snd s))))))"

definition markVisited :: "bool jsArray \<Rightarrow> nat \<Rightarrow> bool jsArray" where
  "markVisited visited n = (if \<not> isTrue visited n then arraySet visited n True else visited)"

subsubsection \<open>Tree exploration\<close>

text \<open>\<open>treeify\<close>, for one node: its child ports are all ports but its parent port, and
  each child learns its own parent port.\<close>

definition parentPortOf :: "int jsArray \<Rightarrow> nat \<Rightarrow> int" where
  "parentPortOf ports n = (case arrayGet ports n of None \<Rightarrow> - 1 | Some p \<Rightarrow> p)"

definition treeifyNode :: "nat \<Rightarrow> GlobalCoordinator \<Rightarrow> GlobalCoordinator outcome" where
  "treeifyNode nodeId c =
     (case getChildPorts (graph c) nodeId (parentPortOf (parentPorts c) nodeId) of
        Inl e \<Rightarrow> (Some e, c)
      | Inr ports \<Rightarrow>
          forEachJS
            (\<lambda>childPort c'.
               case getAdjacentNodeFromPort (graph c') nodeId (int childPort) of
                 Inl e \<Rightarrow> (Some e, c')
               | Inr childNode \<Rightarrow>
                   (case getPortFromAdjacentNode (graph c') childNode nodeId of
                      Inl e \<Rightarrow> (Some e, c')
                    | Inr p \<Rightarrow> (None, c'\<lparr>parentPorts := arraySet (parentPorts c') childNode p\<rparr>)))
            ports (c\<lparr>childPorts := arraySet (childPorts c) nodeId ports\<rparr>))"

definition newGlobalCoordinator :: "Graph \<Rightarrow> enat \<Rightarrow> real \<Rightarrow> nat \<Rightarrow> nat \<Rightarrow> GlobalCoordinator" where
  "newGlobalCoordinator g l p numberOfRobots startingNode =
     createRobots (\<lambda>robot. robot) numberOfRobots startingNode
       \<lparr>graph = g, graphHistory = [],
        visitedNodes = arraySet (arrayFill (getNodeCount g) False) startingNode True,
        robots = [], robotStartingNode = startingNode, numberOfRobotsToGenerate = numberOfRobots,
        robotIdCount = 0, stepNumber = 0, lambda = l, edgeSurvivalProbability = p,
        parentPorts = [], childPorts = []\<rparr>"

definition newTreeCoordinator :: "Graph \<Rightarrow> enat \<Rightarrow> real \<Rightarrow> nat \<Rightarrow> nat \<Rightarrow> GlobalCoordinator outcome" where
  "newTreeCoordinator g l p numberOfRobots startingNode =
     forEachJS treeifyNode (getNodeIds g)
       ((newGlobalCoordinator g l p numberOfRobots startingNode)
          \<lparr>parentPorts := arrayFill (getNodeCount g) (- 1)\<rparr>)"

text \<open>The \<open>while\<close> loop of the planning visits node \<open>0\<close> and then, in increasing order,
  every later index at which \<open>visitedNodes\<close> holds \<open>true\<close>.\<close>

definition planTree :: "nat \<Rightarrow> GlobalCoordinator \<Rightarrow> (GlobalCoordinator \<times> int jsArray) outcome" where
  "planTree stackLimit c =
     forEachJS (planNode stackLimit)
       (0 # filter (isTrue (visitedNodes c)) [1..<length (visitedNodes c)]) (c, [])"

definition treeMove ::
  "int jsArray \<Rightarrow> nat \<Rightarrow> GlobalCoordinator \<times> rng \<Rightarrow> (GlobalCoordinator \<times> rng) outcome" where
  "treeMove plannedPorts i s =
     (let c = fst s; robot = robots c ! i
      in case arrayGet plannedPorts (robotId robot) of
           None \<Rightarrow> (Some TypeError, s)
         | Some port \<Rightarrow>
             if port = - 1 then (None, s)
             else
               (case getEdgeWeightFromPort (graph c) (currentNode robot) port of
                  Inl e \<Rightarrow> (Some e, s)
                | Inr w \<Rightarrow>
                    if w < 0
                    then (None, (c\<lparr>robots := (robots c)
                                    [i := robot\<lparr>portsTraversed := portsTraversed robot @ [- port - 100]\<rparr>]\<rparr>,
                                 snd s))
                    else
                      (case getAdjacentNodeFromPort (graph c) (currentNode robot) port of
                         Inl e \<Rightarrow> (Some e, s)
                       | Inr n \<Rightarrow>
                           (None, (c\<lparr>robots := (robots c)
                                      [i := robot\<lparr>currentNode := n,
                                                  portsTraversed := portsTraversed robot @ [port]\<rparr>],
                                    visitedNodes := markVisited (visitedNodes c) n\<rparr>,
                                   snd s)))))"

definition injectRobots :: "GlobalCoordinator \<times> rng \<Rightarrow> (GlobalCoordinator \<times> rng) outcome" where
  "injectRobots s =
     (None, (createRobots (\<lambda>robot. robot) (numberOfRobotsToGenerate (fst s)) 0 (fst s), snd s))"

definition stepTreeExploration :: "nat \<Rightarrow> GlobalCoordinator \<times> rng \<Rightarrow> (GlobalCoordinator \<times> rng) outcome" where
  "stepTreeExploration stackLimit s =
     andThen (reshuffle s) (\<lambda>s1.
       case planTree stackLimit (fst s1) of
         (Some e, planned) \<Rightarrow> (Some e, (fst planned, snd s1))
       | (None, planned) \<Rightarrow>
           andThen (forEachJS (treeMove (snd planned)) [0..<length (robots (fst planned))]
                      (fst planned, snd s1)) (\<lambda>s2.
           andThen (injectRobots s2) incrementStep))"

subsubsection \<open>Arbitrary-graph exploration\<close>

definition newArbitraryCoordinator :: "Graph \<Rightarrow> enat \<Rightarrow> real \<Rightarrow> nat \<Rightarrow> nat \<Rightarrow> GlobalCoordinator" where
  "newArbitraryCoordinator g l p numberOfRobots startingNode =
     (newGlobalCoordinator g l p numberOfRobots startingNode)
       \<lparr>parentPorts := arrayFill (getNodeCount g) (- 1)\<rparr>"

text \<open>The nodes with robots on them, each once, in the order of their first robot.\<close>

fun uniqueInOrder :: "nat list \<Rightarrow> nat list \<Rightarrow> nat list" where
  "uniqueInOrder seen [] = []"
| "uniqueInOrder seen (x # xs) =
     (if x \<in> set seen then uniqueInOrder seen xs else x # uniqueInOrder (x # seen) xs)"

text \<open>\<open>if (!this.childPorts[n]) { this.childPorts[n] = this.graph.getChildPorts(n, this.parentPorts[n]) }\<close>\<close>

definition ensureChildPorts :: "nat \<Rightarrow> GlobalCoordinator \<Rightarrow> GlobalCoordinator outcome" where
  "ensureChildPorts n c =
     (case arrayGet (childPorts c) n of
        Some ports \<Rightarrow> (None, c)
      | None \<Rightarrow>
          (case getChildPorts (graph c) n (parentPortOf (parentPorts c) n) of
             Inl e \<Rightarrow> (Some e, c)
           | Inr ports \<Rightarrow> (None, c\<lparr>childPorts := arraySet (childPorts c) n ports\<rparr>)))"

definition planArbitraryNode ::
  "nat \<Rightarrow> nat \<Rightarrow> GlobalCoordinator \<times> int jsArray \<Rightarrow> (GlobalCoordinator \<times> int jsArray) outcome" where
  "planArbitraryNode stackLimit nodeWithRobot s =
     (case ensureChildPorts nodeWithRobot (fst s) of
        (Some e, c) \<Rightarrow> (Some e, (c, snd s))
      | (None, c) \<Rightarrow> planNode stackLimit nodeWithRobot (c, snd s))"

definition planArbitrary :: "nat \<Rightarrow> GlobalCoordinator \<Rightarrow> (GlobalCoordinator \<times> int jsArray) outcome" where
  "planArbitrary stackLimit c =
     forEachJS (planArbitraryNode stackLimit) (uniqueInOrder [] (map currentNode (robots c))) (c, [])"

text \<open>The child ports of a node a robot reaches for the first time: the ports that do
  not lead to a node already visited. The \<open>forEach\<close> runs over the array as first
  computed while \<open>this.childPorts[plannedNode]\<close> is replaced by filtered copies.\<close>

definition dropVisitedChild :: "nat \<Rightarrow> nat \<Rightarrow> GlobalCoordinator \<Rightarrow> GlobalCoordinator outcome" where
  "dropVisitedChild plannedNode childPort c =
     (case getAdjacentNodeFromPort (graph c) plannedNode (int childPort) of
        Inl e \<Rightarrow> (Some e, c)
      | Inr childNode \<Rightarrow>
          if isTrue (visitedNodes c) childNode
          then (case arrayGet (childPorts c) plannedNode of
                  None \<Rightarrow> (Some TypeError, c)
                | Some ports \<Rightarrow>
                    (None, c\<lparr>childPorts := arraySet (childPorts c) plannedNode
                                              (filter (\<lambda>port. port \<noteq> childPort) ports)\<rparr>))
          else (None, c))"

definition adoptNode :: "nat \<Rightarrow> nat \<Rightarrow> GlobalCoordinator \<Rightarrow> GlobalCoordinator outcome" where
  "adoptNode plannedNode fromNode c =
     andThen
       (if arrayGet (parentPorts c) plannedNode = Some (- 1)
        then (case getPortFromAdjacentNode (graph c) plannedNode fromNode of
                Inl e \<Rightarrow> (Some e, c)
              | Inr p \<Rightarrow> (None, c\<lparr>parentPorts := arraySet (parentPorts c) plannedNode p\<rparr>))
        else (None, c))
       (\<lambda>c1.
          case arrayGet (childPorts c1) plannedNode of
            Some ports \<Rightarrow> (None, c1)
          | None \<Rightarrow>
              (case getChildPorts (graph c1) plannedNode (parentPortOf (parentPorts c1) plannedNode) of
                 Inl e \<Rightarrow> (Some e, c1)
               | Inr ports \<Rightarrow>
                   forEachJS (dropVisitedChild plannedNode) ports
                     (c1\<lparr>childPorts := arraySet (childPorts c1) plannedNode ports\<rparr>)))"

definition arbitraryMove ::
  "int jsArray \<Rightarrow> nat \<Rightarrow> GlobalCoordinator \<times> rng \<Rightarrow> (GlobalCoordinator \<times> rng) outcome" where
  "arbitraryMove plannedPorts i s =
     (let c = fst s; robot = robots c ! i
      in case arrayGet plannedPorts (robotId robot) of
           None \<Rightarrow> (Some TypeError, s)
         | Some port \<Rightarrow>
             if port = - 1 then (None, s)
             else
               (case getEdgeWeightFromPort (graph c) (currentNode robot) port of
                  Inl e \<Rightarrow> (Some e, s)
                | Inr w \<Rightarrow>
                    if w < 0
                    then (None, (c\<lparr>robots := (robots c)
                                    [i := robot\<lparr>portsTraversed := portsTraversed robot @ [- port - 100]\<rparr>]\<rparr>,
                                 snd s))
                    else
                      (case getAdjacentNodeFromPort (graph c) (currentNode robot) port of
                         Inl e \<Rightarrow> (Some e, s)
                       | Inr plannedNode \<Rightarrow>
                           (case adoptNode plannedNode (currentNode robot) c of
                              (Some e, c1) \<Rightarrow> (Some e, (c1, snd s))
                            | (None, c1) \<Rightarrow>
                                (None, (c1\<lparr>robots := (robots c1)
                                           [i := robot\<lparr>currentNode := plannedNode,
                                                       portsTraversed := portsTraversed robot @ [port]\<rparr>],
                                         visitedNodes := markVisited (visitedNodes c1) plannedNode\<rparr>,
                                        snd s))))))"

definition stepArbitraryExploration :: "nat \<Rightarrow> GlobalCoordinator \<times> rng \<Rightarrow> (GlobalCoordinator \<times> rng) outcome" where
  "stepArbitraryExploration stackLimit s =
     andThen (reshuffle s) (\<lambda>s1.
       case planArbitrary stackLimit (fst s1) of
         (Some e, planned) \<Rightarrow> (Some e, (fst planned, snd s1))
       | (None, planned) \<Rightarrow>
           andThen (forEachJS (arbitraryMove (snd planned)) [0..<length (robots (fst planned))]
                      (fst planned, snd s1)) (\<lambda>s2.
           andThen (injectRobots s2) incrementStep))"

section \<open>What a step keeps\<close>

text \<open>After the reshuffle, a step leaves the graph and its history alone and never takes
  a \<open>true\<close> out of \<open>visitedNodes\<close>.\<close>

definition settled ::
  "('r, 'z) RobotCoordinator_scheme \<Rightarrow> ('r, 'z) RobotCoordinator_scheme \<Rightarrow> bool" where
  "settled c c' =
     (graph c' = graph c \<and> graphHistory c' = graphHistory c
      \<and> (\<forall>n. isTrue (visitedNodes c) n \<longrightarrow> isTrue (visitedNodes c') n))"

lemma settled_refl: "settled c c"
  by (simp add: settled_def)

lemma settled_trans: "settled c c' \<Longrightarrow> settled c' c'' \<Longrightarrow> settled c c''"
  by (simp add: settled_def)

lemma settled_same:
  "graph c' = graph c \<Longrightarrow> graphHistory c' = graphHistory c \<Longrightarrow> visitedNodes c' = visitedNodes c
     \<Longrightarrow> settled c c'"
  by (simp add: settled_def)

lemma markVisited_keeps: "isTrue visited n \<Longrightarrow> isTrue (markVisited visited m) n"
  by (simp add: markVisited_def isTrue_arraySet)

lemma markVisited_marks: "isTrue (markVisited visited n) n"
  by (simp add: markVisited_def isTrue_arraySet)

lemma andThen_None [simp]: "andThen (None, s) f = f s"
  by (simp add: andThen_def)

lemma andThen_Some [simp]: "andThen (Some e, s) f = (Some e, s)"
  by (simp add: andThen_def)

lemma andThen_invariant:
  assumes "I (snd r)" and "\<And>s. I s \<Longrightarrow> I (snd (f s))"
  shows "I (snd (andThen r f))"
proof (cases r)
  case (Pair thrown s)
  with assms show ?thesis by (cases thrown) auto
qed

lemma forEachJS_settled:
  assumes "\<And>x s. settled (fst s) (fst (snd (f x s)))"
  shows "settled (fst s) (fst (snd (forEachJS f xs s)))"
  by (rule forEachJS_invariant [where I = "\<lambda>s'. settled (fst s) (fst s')"])
     (auto intro: settled_trans assms settled_refl)

subsection \<open>The callbacks\<close>

lemma randomWalkMove_settled: "settled (fst s) (fst (snd (randomWalkMove i s)))"
  by (auto simp: randomWalkMove_def Let_def random_def settled_def split: sum.splits prod.splits)

lemma dispersionMove_settled: "settled (fst s) (fst (snd (dispersionMove i s)))"
  using randomWalkMove_settled [of s i]
  by (auto simp: dispersionMove_def Let_def settled_def isTrue_arraySet)

lemma explorationMove_settled: "settled (fst s) (fst (snd (explorationMove i s)))"
proof -
  let ?c = "fst s"
  let ?c1 = "if \<not> isTrue (visitedNodes ?c) (currentNode (robots ?c ! i))
             then ?c\<lparr>visitedNodes := arraySet (visitedNodes ?c) (currentNode (robots ?c ! i)) True\<rparr>
             else ?c"
  have "settled ?c ?c1" by (simp add: settled_def isTrue_arraySet)
  moreover have "settled ?c1 (fst (snd (randomWalkMove i (?c1, snd s))))"
    using randomWalkMove_settled [of "(?c1, snd s)" i] by simp
  ultimately have "settled ?c (fst (snd (randomWalkMove i (?c1, snd s))))"
    by (rule settled_trans)
  then show ?thesis by (simp add: explorationMove_def Let_def)
qed

lemma incrementStep_settled: "settled (fst s) (fst (snd (incrementStep s)))"
  by (simp add: incrementStep_def settled_def)

lemma createRobots_settled: "settled c (createRobots init k n c)"
proof -
  have "settled c (fold (\<lambda>i. createRobot init n) xs c)" for xs
  proof (induction xs rule: rev_induct)
    case Nil
    show ?case by (simp add: settled_refl)
  next
    case (snoc x xs)
    then show ?case by (simp add: settled_def createRobot_def)
  qed
  then show ?thesis by (simp add: createRobots_def)
qed

lemma injectRobots_settled: "settled (fst s) (fst (snd (injectRobots s)))"
  by (simp add: injectRobots_def createRobots_settled)

lemma planNode_coordinator: "fst (snd (planNode stackLimit node s)) = fst s"
  by (simp add: planNode_def Let_def split: option.splits sum.splits)

lemma planTree_coordinator: "fst (snd (planTree stackLimit c)) = c"
  unfolding planTree_def
  by (rule forEachJS_invariant [where I = "\<lambda>s'. fst s' = c"]) (simp_all add: planNode_coordinator)

lemma treeMove_settled: "settled (fst s) (fst (snd (treeMove plannedPorts i s)))"
  by (auto simp: treeMove_def Let_def settled_def markVisited_keeps split: sum.splits option.splits)

lemma ensureChildPorts_settled: "settled c (snd (ensureChildPorts n c))"
  by (auto simp: ensureChildPorts_def settled_def split: sum.splits option.splits)

lemma planArbitraryNode_settled: "settled (fst s) (fst (snd (planArbitraryNode stackLimit n s)))"
proof (cases "ensureChildPorts n (fst s)")
  case (Pair thrown c)
  with ensureChildPorts_settled [of "fst s" n] have c: "settled (fst s) c" by simp
  show ?thesis
  proof (cases thrown)
    case None
    with Pair c show ?thesis
      by (simp add: planArbitraryNode_def planNode_coordinator)
  next
    case (Some e)
    with Pair c show ?thesis by (simp add: planArbitraryNode_def)
  qed
qed

lemma planArbitrary_settled: "settled c (fst (snd (planArbitrary stackLimit c)))"
  unfolding planArbitrary_def
  using forEachJS_settled [of "planArbitraryNode stackLimit" "(c, [])", OF planArbitraryNode_settled]
  by simp

lemma dropVisitedChild_settled: "settled c (snd (dropVisitedChild plannedNode childPort c))"
  by (auto simp: dropVisitedChild_def settled_def split: sum.splits option.splits)

lemma forEachJS_settled_plain:
  assumes "\<And>x c. settled c (snd (f x c))"
  shows "settled c (snd (forEachJS f xs c))"
  by (rule forEachJS_invariant [where I = "\<lambda>c'. settled c c'"])
     (auto intro: settled_trans assms settled_refl)

lemma adoptNode_settled: "settled c (snd (adoptNode plannedNode fromNode c))"
proof -
  let ?first = "if arrayGet (parentPorts c) plannedNode = Some (- 1)
        then (case getPortFromAdjacentNode (graph c) plannedNode fromNode of
                Inl e \<Rightarrow> (Some e, c)
              | Inr p \<Rightarrow> (None, c\<lparr>parentPorts := arraySet (parentPorts c) plannedNode p\<rparr>))
        else (None, c)"
  have first: "settled c (snd ?first)"
    by (auto simp: settled_def split: sum.splits)
  have second: "settled c (snd (case arrayGet (childPorts c1) plannedNode of
            Some ports \<Rightarrow> (None, c1)
          | None \<Rightarrow>
              (case getChildPorts (graph c1) plannedNode (parentPortOf (parentPorts c1) plannedNode) of
                 Inl e \<Rightarrow> (Some e, c1)
               | Inr ports \<Rightarrow>
                   forEachJS (dropVisitedChild plannedNode) ports
                     (c1\<lparr>childPorts := arraySet (childPorts c1) plannedNode ports\<rparr>))))"
    if c1: "settled c c1" for c1
  proof -
    have "settled c1 (snd (forEachJS (dropVisitedChild plannedNode) ports
                     (c1\<lparr>childPorts := arraySet (childPorts c1) plannedNode ports\<rparr>)))" for ports
    proof -
      have "settled c1 (c1\<lparr>childPorts := arraySet (childPorts c1) plannedNode ports\<rparr>)"
        by (simp add: settled_def)
      moreover have "settled (c1\<lparr>childPorts := arraySet (childPorts c1) plannedNode ports\<rparr>)
         (snd (forEachJS (dropVisitedChild plannedNode) ports
                     (c1\<lparr>childPorts := arraySet (childPorts c1) plannedNode ports\<rparr>)))"
        by (rule forEachJS_settled_plain) (rule dropVisitedChild_settled)
      ultimately show ?thesis by (rule settled_trans)
    qed
    with c1 show ?thesis
      by (auto intro: settled_trans split: option.splits sum.splits)
  qed
  show ?thesis
    unfolding adoptNode_def
    by (rule andThen_invariant [where I = "settled c"]) (rule first, rule second)
qed

lemma arbitraryMove_settled: "settled (fst s) (fst (snd (arbitraryMove plannedPorts i s)))"
proof -
  have "settled (fst s) (c1\<lparr>robots := rs, visitedNodes := markVisited (visitedNodes c1) n\<rparr>)"
    if "settled (fst s) c1" for c1 :: GlobalCoordinator and rs n
    using that by (simp add: settled_def markVisited_keeps)
  then show ?thesis
    using adoptNode_settled [of "fst s"]
    by (auto simp: arbitraryMove_def Let_def settled_refl
        split: sum.splits option.splits prod.splits)
       (auto simp: settled_def, (metis snd_conv)+)
qed

subsection \<open>The steps\<close>

lemma reshuffle_visitedNodes: "visitedNodes (fst (snd (reshuffle s))) = visitedNodes (fst s)"
  by (simp add: reshuffle_def Let_def split: prod.splits)

lemma reshuffleDue_first: "l \<noteq> 0 \<Longrightarrow> reshuffleDue 0 l"
  by (cases l) (auto simp: reshuffleDue_def zero_enat_def)

lemma reshuffle_first:
  assumes "stepNumber (fst s) = 0" and "lambda (fst s) \<noteq> 0"
  shows "graphHistory (fst (snd (reshuffle s))) = graphHistory (fst s) @ [(0, deepCopyNodes (graph (fst s)))]"
    and "graph (fst (snd (reshuffle s)))
         = fst (snd (setRandomEdgeWeightSigns (edgeSurvivalProbability (fst s)) (graph (fst s), snd s)))"
  using assms reshuffleDue_first [of "lambda (fst s)"]
  by (simp_all add: reshuffle_def Let_def split: prod.splits)

lemma after_reshuffle:
  assumes "\<And>s1. settled (fst s1) (fst (snd (rest s1)))"
  shows "settled (fst (snd (reshuffle s))) (fst (snd (andThen (reshuffle s) rest)))"
proof -
  obtain thrown s1 where "reshuffle s = (thrown, s1)"
    by (cases "reshuffle s")
  then show ?thesis
    using assms [of s1] by (cases thrown) (simp_all add: settled_refl)
qed

lemma stepRandomWalkDispersion_settled:
  "settled (fst (snd (reshuffle s))) (fst (snd (stepRandomWalkDispersion s)))"
  unfolding stepRandomWalkDispersion_def
proof (rule after_reshuffle)
  fix s1 :: "RandomWalkRobot RobotCoordinator \<times> rng"
  show "settled (fst s1) (fst (snd (andThen (forEachJS dispersionMove
                (filter (\<lambda>i. state (robots (fst s1) ! i) = Active) [0..<length (robots (fst s1))]) s1)
       incrementStep)))"
  proof (rule andThen_invariant [where I = "\<lambda>s'. settled (fst s1) (fst s')"])
    show "settled (fst s1) (fst (snd (forEachJS dispersionMove
                (filter (\<lambda>i. state (robots (fst s1) ! i) = Active) [0..<length (robots (fst s1))]) s1)))"
      by (rule forEachJS_settled) (rule dispersionMove_settled)
  next
    fix s' :: "RandomWalkRobot RobotCoordinator \<times> rng"
    assume "settled (fst s1) (fst s')"
    then show "settled (fst s1) (fst (snd (incrementStep s')))"
      using incrementStep_settled [of s'] by (rule settled_trans)
  qed
qed

lemma stepRandomWalkExploration_settled:
  "settled (fst (snd (reshuffle s))) (fst (snd (stepRandomWalkExploration s)))"
  unfolding stepRandomWalkExploration_def
proof (rule after_reshuffle)
  fix s1 :: "RandomWalkRobot RobotCoordinator \<times> rng"
  show "settled (fst s1) (fst (snd (andThen (forEachJS explorationMove [0..<length (robots (fst s1))] s1)
       incrementStep)))"
  proof (rule andThen_invariant [where I = "\<lambda>s'. settled (fst s1) (fst s')"])
    show "settled (fst s1) (fst (snd (forEachJS explorationMove [0..<length (robots (fst s1))] s1)))"
      by (rule forEachJS_settled) (rule explorationMove_settled)
  next
    fix s' :: "RandomWalkRobot RobotCoordinator \<times> rng"
    assume "settled (fst s1) (fst s')"
    then show "settled (fst s1) (fst (snd (incrementStep s')))"
      using incrementStep_settled [of s'] by (rule settled_trans)
  qed
qed

text \<open>What follows the planning is the same in both explorations, up to the callback of
  the move.\<close>

lemma moves_settled:
  assumes move: "\<And>i s. settled (fst s) (fst (snd (move i s)))"
    and start: "settled c (fst s2)"
  shows "settled c (fst (snd (andThen (forEachJS move xs s2) (\<lambda>s3. andThen (injectRobots s3) incrementStep))))"
proof (rule andThen_invariant [where I = "\<lambda>s'. settled c (fst s')"])
  show "settled c (fst (snd (forEachJS move xs s2)))"
    using start forEachJS_settled [of move s2 xs, OF move] by (rule settled_trans)
next
  fix s3 :: "GlobalCoordinator \<times> rng"
  assume s3: "settled c (fst s3)"
  show "settled c (fst (snd (andThen (injectRobots s3) incrementStep)))"
  proof (rule andThen_invariant [where I = "\<lambda>s'. settled c (fst s')"])
    show "settled c (fst (snd (injectRobots s3)))"
      using s3 injectRobots_settled [of s3] by (rule settled_trans)
  next
    fix s4 :: "GlobalCoordinator \<times> rng"
    assume "settled c (fst s4)"
    then show "settled c (fst (snd (incrementStep s4)))"
      using incrementStep_settled [of s4] by (rule settled_trans)
  qed
qed

lemma stepTreeExploration_settled:
  "settled (fst (snd (reshuffle s))) (fst (snd (stepTreeExploration stackLimit s)))"
  unfolding stepTreeExploration_def
proof (rule after_reshuffle)
  fix s1 :: "GlobalCoordinator \<times> rng"
  obtain thrown planned where p: "planTree stackLimit (fst s1) = (thrown, planned)"
    by (cases "planTree stackLimit (fst s1)")
  with planTree_coordinator [of stackLimit "fst s1"] have c: "fst planned = fst s1" by simp
  show "settled (fst s1) (fst (snd (case planTree stackLimit (fst s1) of
         (Some e, planned) \<Rightarrow> (Some e, (fst planned, snd s1))
       | (None, planned) \<Rightarrow>
           andThen (forEachJS (treeMove (snd planned)) [0..<length (robots (fst planned))]
                      (fst planned, snd s1)) (\<lambda>s2.
           andThen (injectRobots s2) incrementStep))))"
  proof (cases thrown)
    case (Some e)
    with p c show ?thesis by (simp add: settled_refl)
  next
    case None
    have "settled (fst s1) (fst (snd (andThen (forEachJS (treeMove (snd planned)) [0..<length (robots (fst planned))]
                      (fst planned, snd s1)) (\<lambda>s2. andThen (injectRobots s2) incrementStep))))"
      by (rule moves_settled) (simp_all add: treeMove_settled c settled_refl)
    with p None show ?thesis by simp
  qed
qed

lemma stepArbitraryExploration_settled:
  "settled (fst (snd (reshuffle s))) (fst (snd (stepArbitraryExploration stackLimit s)))"
  unfolding stepArbitraryExploration_def
proof (rule after_reshuffle)
  fix s1 :: "GlobalCoordinator \<times> rng"
  obtain thrown planned where p: "planArbitrary stackLimit (fst s1) = (thrown, planned)"
    by (cases "planArbitrary stackLimit (fst s1)")
  with planArbitrary_settled [of "fst s1" stackLimit] have c: "settled (fst s1) (fst planned)" by simp
  show "settled (fst s1) (fst (snd (case planArbitrary stackLimit (fst s1) of
         (Some e, planned) \<Rightarrow> (Some e, (fst planned, snd s1))
       | (None, planned) \<Rightarrow>
           andThen (forEachJS (arbitraryMove (snd planned)) [0..<length (robots (fst planned))]
                      (fst planned, snd s1)) (\<lambda>s2.
           andThen (injectRobots s2) incrementStep))))"
  proof (cases thrown)
    case (Some e)
    with p c show ?thesis by simp
  next
    case None
    have "settled (fst s1) (fst (snd (andThen (forEachJS (arbitraryMove (snd planned)) [0..<length (robots (fst planned))]
                      (fst planned, snd s1)) (\<lambda>s2. andThen (injectRobots s2) incrementStep))))"
      by (rule moves_settled) (simp_all add: arbitraryMove_settled c)
    with p None show ?thesis by simp
  qed
qed

lemma step_keeps_visited:
  assumes "settled (fst (snd (reshuffle s))) c'" and "isTrue (visitedNodes (fst s)) n"
  shows "isTrue (visitedNodes c') n"
  using assms reshuffle_visitedNodes [of s] by (simp add: settled_def)

text \<open>
  C6. For each of the four coordinators and every node id: when \<open>visitedNodes\<close> holds
  \<open>true\<close> at the node before a call of \<open>step()\<close>, it holds \<open>true\<close> there in the
  coordinator as the call leaves it, whether the call returns or throws. So no later
  step takes it back.
\<close>

theorem visitedNodes_never_unset:
  "(\<forall>n. isTrue (visitedNodes c) n \<longrightarrow>
        isTrue (visitedNodes (fst (snd (stepRandomWalkDispersion (c, r))))) n)
   \<and> (\<forall>n. isTrue (visitedNodes c) n \<longrightarrow>
        isTrue (visitedNodes (fst (snd (stepRandomWalkExploration (c, r))))) n)
   \<and> (\<forall>n. isTrue (visitedNodes g) n \<longrightarrow>
        isTrue (visitedNodes (fst (snd (stepTreeExploration stackLimit (g, r))))) n)
   \<and> (\<forall>n. isTrue (visitedNodes g) n \<longrightarrow>
        isTrue (visitedNodes (fst (snd (stepArbitraryExploration stackLimit (g, r))))) n)"
  using step_keeps_visited [OF stepRandomWalkDispersion_settled [of "(c, r)"]]
    step_keeps_visited [OF stepRandomWalkExploration_settled [of "(c, r)"]]
    step_keeps_visited [OF stepTreeExploration_settled [of "(g, r)" stackLimit]]
    step_keeps_visited [OF stepArbitraryExploration_settled [of "(g, r)" stackLimit]]
  by simp

lemma step_first:
  assumes "settled (fst (snd (reshuffle (c, r)))) c'" and "stepNumber c = 0" and "lambda c \<noteq> 0"
  shows "graphHistory c' = graphHistory c @ [(0, deepCopyNodes (graph c))]
       \<and> graph c' = fst (snd (setRandomEdgeWeightSigns (edgeSurvivalProbability c) (graph c, r)))"
  using assms reshuffle_first [of "(c, r)"] by (simp add: settled_def)

text \<open>
  C9. For each of the four coordinators, with \<open>stepNumber = 0\<close> and \<open>lambda\<close> a positive
  integer or \<open>Infinity\<close>: the call of \<open>step()\<close> leaves \<open>graphHistory\<close> with exactly one more
  entry, the snapshot \<open>(0, deepCopyNodes())\<close> of the graph as it was, and leaves the graph
  as \<open>setRandomEdgeWeightSigns(edgeSurvivalProbability)\<close> left it.
\<close>

theorem first_step_reshuffles:
  "(stepNumber c = 0 \<and> lambda c \<noteq> 0 \<longrightarrow>
      graphHistory (fst (snd (stepRandomWalkDispersion (c, r))))
        = graphHistory c @ [(0, deepCopyNodes (graph c))]
      \<and> graph (fst (snd (stepRandomWalkDispersion (c, r))))
        = fst (snd (setRandomEdgeWeightSigns (edgeSurvivalProbability c) (graph c, r))))
   \<and> (stepNumber c = 0 \<and> lambda c \<noteq> 0 \<longrightarrow>
      graphHistory (fst (snd (stepRandomWalkExploration (c, r))))
        = graphHistory c @ [(0, deepCopyNodes (graph c))]
      \<and> graph (fst (snd (stepRandomWalkExploration (c, r))))
        = fst (snd (setRandomEdgeWeightSigns (edgeSurvivalProbability c) (graph c, r))))
   \<and> (stepNumber g = 0 \<and> lambda g \<noteq> 0 \<longrightarrow>
      graphHistory (fst (snd (stepTreeExploration stackLimit (g, r))))
        = graphHistory g @ [(0, deepCopyNodes (graph g))]
      \<and> graph (fst (snd (stepTreeExploration stackLimit (g, r))))
        = fst (snd (setRandomEdgeWeightSigns (edgeSurvivalProbability g) (graph g, r))))
   \<and> (stepNumber g = 0 \<and> lambda g \<noteq> 0 \<longrightarrow>
      graphHistory (fst (snd (stepArbitraryExploration stackLimit (g, r))))
        = graphHistory g @ [(0, deepCopyNodes (graph g))]
      \<and> graph (fst (snd (stepArbitraryExploration stackLimit (g, r))))
        = fst (snd (setRandomEdgeWeightSigns (edgeSurvivalProbability g) (graph g, r))))"
  using step_first [OF stepRandomWalkDispersion_settled [of "(c, r)"]]
    step_first [OF stepRandomWalkExploration_settled [of "(c, r)"]]
    step_first [OF stepTreeExploration_settled [of "(g, r)" stackLimit]]
    step_first [OF stepArbitraryExploration_settled [of "(g, r)" stackLimit]]
  by blast

subsection \<open>Three coordinators to run\<close>

definition path2 :: Graph where
  "path2 = \<lparr>nodes = [\<lparr>Vertex.weight = 1, edges = [\<lparr>Edge.weight = 1, targetNode = 1\<rparr>]\<rparr>,
                      \<lparr>Vertex.weight = 1, edges = [\<lparr>Edge.weight = 1, targetNode = 0\<rparr>]\<rparr>],
            isDirected = False\<rparr>"

text \<open>\<open>c = new RandomWalkDispersionRobotCoordinator(path2, Infinity, 1, 1, 0);
  c.createRobots(1, 0)\<close>, and the same for the exploration: the two classes differ in
  \<open>step\<close> and \<open>run\<close> only.\<close>

definition walkerOnPath2 :: "RandomWalkRobot RobotCoordinator" where
  "walkerOnPath2 = createRobots activeRobot 1 0 (newRandomWalkCoordinator path2 \<infinity> 1 1 0)"

definition treeOnPath3 :: GlobalCoordinator where
  "treeOnPath3 = snd (newTreeCoordinator path3 \<infinity> 1 1 0)"

definition explorersOnCycle5 :: GlobalCoordinator where
  "explorersOnCycle5 = newArbitraryCoordinator cycle5 (enat 3) (1/2) 2 0"

lemma generatePath_2: "generatePath 2 False = Inr path2"
  by code_simp

lemma examples_start:
  "isTrue (visitedNodes walkerOnPath2) 0" "stepNumber walkerOnPath2 = 0" "lambda walkerOnPath2 \<noteq> 0"
  "isTrue (visitedNodes treeOnPath3) 0" "stepNumber treeOnPath3 = 0" "lambda treeOnPath3 \<noteq> 0"
  "isTrue (visitedNodes explorersOnCycle5) 0" "stepNumber explorersOnCycle5 = 0"
  "lambda explorersOnCycle5 \<noteq> 0"
  by code_simp+

theorem visitedNodes_never_unset_witness:
  "isTrue (visitedNodes walkerOnPath2) 0
   \<and> isTrue (visitedNodes (fst (snd (stepRandomWalkDispersion (walkerOnPath2, \<lambda>i. 0))))) 0
   \<and> isTrue (visitedNodes (fst (snd (stepRandomWalkExploration (walkerOnPath2, \<lambda>i. 0))))) 0
   \<and> isTrue (visitedNodes treeOnPath3) 0
   \<and> isTrue (visitedNodes (fst (snd (stepTreeExploration 100 (treeOnPath3, \<lambda>i. 0))))) 0
   \<and> isTrue (visitedNodes (fst (snd (stepArbitraryExploration 100 (treeOnPath3, \<lambda>i. 0))))) 0"
  using visitedNodes_never_unset [of walkerOnPath2 "\<lambda>i. 0" treeOnPath3 100] examples_start(1,4)
  by blast

theorem first_step_reshuffles_witness:
  "stepNumber walkerOnPath2 = 0 \<and> lambda walkerOnPath2 \<noteq> 0
   \<and> graphHistory (fst (snd (stepRandomWalkDispersion (walkerOnPath2, \<lambda>i. 0))))
       = graphHistory walkerOnPath2 @ [(0, deepCopyNodes (graph walkerOnPath2))]
   \<and> graph (fst (snd (stepRandomWalkDispersion (walkerOnPath2, \<lambda>i. 0))))
       = fst (snd (setRandomEdgeWeightSigns (edgeSurvivalProbability walkerOnPath2)
                     (graph walkerOnPath2, \<lambda>i. 0)))
   \<and> graphHistory (fst (snd (stepRandomWalkExploration (walkerOnPath2, \<lambda>i. 0))))
       = graphHistory walkerOnPath2 @ [(0, deepCopyNodes (graph walkerOnPath2))]
   \<and> stepNumber explorersOnCycle5 = 0 \<and> lambda explorersOnCycle5 \<noteq> 0
   \<and> graphHistory (fst (snd (stepTreeExploration 100 (explorersOnCycle5, \<lambda>i. 0))))
       = graphHistory explorersOnCycle5 @ [(0, deepCopyNodes (graph explorersOnCycle5))]
   \<and> graphHistory (fst (snd (stepArbitraryExploration 100 (explorersOnCycle5, \<lambda>i. 0))))
       = graphHistory explorersOnCycle5 @ [(0, deepCopyNodes (graph explorersOnCycle5))]
   \<and> graph (fst (snd (stepArbitraryExploration 100 (explorersOnCycle5, \<lambda>i. 0))))
       = fst (snd (setRandomEdgeWeightSigns (edgeSurvivalProbability explorersOnCycle5)
                     (graph explorersOnCycle5, \<lambda>i. 0)))"
  using first_step_reshuffles [of walkerOnPath2 "\<lambda>i. 0" explorersOnCycle5 100] examples_start(2,3,8,9)
  by blast

lemma walkerOnPath2_first_step:
  "fst (stepRandomWalkDispersion (walkerOnPath2, \<lambda>i. 0)) = None"
  "map currentNode (robots (fst (snd (stepRandomWalkDispersion (walkerOnPath2, \<lambda>i. 0))))) = [1]"
  "map portsTraversed (robots (fst (snd (stepRandomWalkDispersion (walkerOnPath2, \<lambda>i. 0))))) = [[0]]"
  "visitedNodes (fst (snd (stepRandomWalkDispersion (walkerOnPath2, \<lambda>i. 0)))) = [Some True, Some False]"
  "fst (stepRandomWalkExploration (walkerOnPath2, \<lambda>i. 0)) = None"
  "map currentNode (robots (fst (snd (stepRandomWalkExploration (walkerOnPath2, \<lambda>i. 0))))) = [1]"
  "visitedNodes (fst (snd (stepRandomWalkExploration (walkerOnPath2, \<lambda>i. 0)))) = [Some True, Some False]"
  by code_simp+

section \<open>What a step does to each robot\<close>

lemma forEachJS_stable:
  assumes "\<And>i s. i \<in> set xs \<Longrightarrow> I s \<Longrightarrow> Q s \<Longrightarrow> I (snd (f i s)) \<and> Q (snd (f i s))"
    and "I s" and "Q s"
  shows "I (snd (forEachJS f xs s)) \<and> Q (snd (forEachJS f xs s))"
  by (rule forEachJS_invariant [where I = "\<lambda>s. I s \<and> Q s"]) (use assms in auto)

text \<open>
  A loop over distinct places of \<open>this.robots\<close> whose callback for place \<open>i\<close> writes no
  other place: when the loop returns, what the callback established of robot \<open>i\<close> against
  its state before the loop still holds, provided the later callbacks keep it.
\<close>

lemma forEachJS_each:
  fixes rob :: "'s \<Rightarrow> 'r list"
  assumes others: "\<And>i j s. i \<in> set xs \<Longrightarrow> j \<noteq> i \<Longrightarrow> rob (snd (f i s)) ! j = rob s ! j"
    and inv: "\<And>i s. i \<in> set xs \<Longrightarrow> I s \<Longrightarrow> I (snd (f i s))"
    and est: "\<And>i s s'. i \<in> set xs \<Longrightarrow> I s \<Longrightarrow> f i s = (None, s') \<Longrightarrow> Q (rob s ! i) i s'"
    and keep: "\<And>i j rb s. i \<in> set xs \<Longrightarrow> j \<noteq> i \<Longrightarrow> I s \<Longrightarrow> Q rb j s \<Longrightarrow> Q rb j (snd (f i s))"
    and "distinct xs" and "I s0" and "forEachJS f xs s0 = (None, s')"
  shows "(\<forall>i \<in> set xs. Q (rob s0 ! i) i s') \<and> (\<forall>j. j \<notin> set xs \<longrightarrow> rob s' ! j = rob s0 ! j) \<and> I s'"
  using assms(5-7) others inv est keep
proof (induction xs arbitrary: s0)
  case Nil
  then show ?case by simp
next
  case (Cons x xs)
  obtain thrown s1 where fx: "f x s0 = (thrown, s1)" by (cases "f x s0")
  with Cons.prems(3) have thrown: "thrown = None" and rest: "forEachJS f xs s1 = (None, s')"
    by (cases thrown; simp)+
  from Cons.prems(2) Cons.prems(5) [of x s0] fx have I1: "I s1" by simp
  from Cons.prems(1) have dx: "x \<notin> set xs" and d: "distinct xs" by simp_all
  have ih: "(\<forall>i \<in> set xs. Q (rob s1 ! i) i s') \<and> (\<forall>j. j \<notin> set xs \<longrightarrow> rob s' ! j = rob s1 ! j) \<and> I s'"
  proof (rule Cons.IH [OF d I1 rest])
    show "\<And>i j s. i \<in> set xs \<Longrightarrow> j \<noteq> i \<Longrightarrow> rob (snd (f i s)) ! j = rob s ! j"
      using Cons.prems(4) by simp
    show "\<And>i s. i \<in> set xs \<Longrightarrow> I s \<Longrightarrow> I (snd (f i s))"
      using Cons.prems(5) by simp
    show "\<And>i s s'. i \<in> set xs \<Longrightarrow> I s \<Longrightarrow> f i s = (None, s') \<Longrightarrow> Q (rob s ! i) i s'"
      using Cons.prems(6) by simp
    show "\<And>i j rb s. i \<in> set xs \<Longrightarrow> j \<noteq> i \<Longrightarrow> I s \<Longrightarrow> Q rb j s \<Longrightarrow> Q rb j (snd (f i s))"
      using Cons.prems(7) by simp
  qed
  have same1: "rob s1 ! j = rob s0 ! j" if "j \<noteq> x" for j
    using Cons.prems(4) [of x j s0] that fx by simp
  have Qx1: "Q (rob s0 ! x) x s1"
    using Cons.prems(6) [of x s0 s1] Cons.prems(2) fx thrown by simp
  have "I (snd (forEachJS f xs s1)) \<and> Q (rob s0 ! x) x (snd (forEachJS f xs s1))"
  proof (rule forEachJS_stable [where I = I and Q = "Q (rob s0 ! x) x"])
    fix i s
    assume "i \<in> set xs" and "I s" and "Q (rob s0 ! x) x s"
    with dx show "I (snd (f i s)) \<and> Q (rob s0 ! x) x (snd (f i s))"
      using Cons.prems(5) [of i s] Cons.prems(7) [of i x s "rob s0 ! x"] by auto
  qed (rule I1, rule Qx1)
  with rest have Qx: "Q (rob s0 ! x) x s'" by simp
  show ?case
  proof (intro conjI ballI allI impI)
    fix i assume "i \<in> set (x # xs)"
    then show "Q (rob s0 ! i) i s'"
      using Qx ih same1 dx by (cases "i = x") auto
  next
    fix j assume "j \<notin> set (x # xs)"
    then show "rob s' ! j = rob s0 ! j"
      using ih same1 by auto
  next
    show "I s'" using ih by simp
  qed
qed

subsection \<open>The outcomes for one robot\<close>

definition traversable :: "Graph \<Rightarrow> ('a Robot_scheme) \<Rightarrow> int \<Rightarrow> bool" where
  "traversable g robot port =
     (\<exists>w. getEdgeWeightFromPort g (currentNode robot) port = Inr w \<and> 0 \<le> w)"

definition movedThrough :: "Graph \<Rightarrow> ('a Robot_scheme) \<Rightarrow> int \<Rightarrow> ('a Robot_scheme) \<Rightarrow> bool" where
  "movedThrough g robot port robot' =
     (getAdjacentNodeFromPort g (currentNode robot) port = Inr (currentNode robot')
      \<and> portsTraversed robot' = portsTraversed robot @ [port])"

lemma andThen_returns:
  assumes "andThen r f = (None, s')"
  obtains s1 where "r = (None, s1)" and "f s1 = (None, s')"
proof -
  obtain thrown s1 where r: "r = (thrown, s1)" by (cases r)
  with assms have "thrown = None" by (cases thrown) simp_all
  with r assms that show thesis by simp
qed

lemma reshuffle_robots: "robots (fst (snd (reshuffle s))) = robots (fst s)"
  by (simp add: reshuffle_def Let_def split: prod.splits)

subsection \<open>The random walks\<close>

lemma randomWalkMove_others:
  "j \<noteq> i \<Longrightarrow> robots (fst (snd (randomWalkMove i s))) ! j = robots (fst s) ! j"
  by (auto simp: randomWalkMove_def Let_def random_def split: sum.splits prod.splits)

lemma randomWalkMove_frame:
  "graph (fst (snd (randomWalkMove i s))) = graph (fst s)
   \<and> length (robots (fst (snd (randomWalkMove i s)))) = length (robots (fst s))
   \<and> visitedNodes (fst (snd (randomWalkMove i s))) = visitedNodes (fst s)"
  by (auto simp: randomWalkMove_def Let_def random_def split: sum.splits prod.splits)

lemma dispersionMove_others:
  "j \<noteq> i \<Longrightarrow> robots (fst (snd (dispersionMove i s))) ! j = robots (fst s) ! j"
  using randomWalkMove_others [of j i s] by (simp add: dispersionMove_def Let_def)

lemma dispersionMove_frame:
  "graph (fst (snd (dispersionMove i s))) = graph (fst s)
   \<and> length (robots (fst (snd (dispersionMove i s)))) = length (robots (fst s))"
  using randomWalkMove_frame [of i s] by (simp add: dispersionMove_def Let_def)

lemma explorationMove_eq:
  "explorationMove i s =
     randomWalkMove i ((fst s)\<lparr>visitedNodes := markVisited (visitedNodes (fst s))
                                  (currentNode (robots (fst s) ! i))\<rparr>, snd s)"
proof -
  have "(fst s)\<lparr>visitedNodes := visitedNodes (fst s)\<rparr> = fst s" by simp
  then show ?thesis
    by (simp add: explorationMove_def Let_def markVisited_def)
qed

lemma explorationMove_others:
  "j \<noteq> i \<Longrightarrow> robots (fst (snd (explorationMove i s))) ! j = robots (fst s) ! j"
  unfolding explorationMove_eq by (simp add: randomWalkMove_others)

lemma explorationMove_frame:
  "graph (fst (snd (explorationMove i s))) = graph (fst s)
   \<and> length (robots (fst (snd (explorationMove i s)))) = length (robots (fst s))"
  unfolding explorationMove_eq
  using randomWalkMove_frame [of i "((fst s)\<lparr>visitedNodes := markVisited (visitedNodes (fst s))
                                  (currentNode (robots (fst s) ! i))\<rparr>, snd s)"]
  by simp

lemma incrementStep_eq: "incrementStep s = (None, s') \<Longrightarrow>
    graph (fst s') = graph (fst s) \<and> robots (fst s') = robots (fst s)
    \<and> visitedNodes (fst s') = visitedNodes (fst s)"
  by (auto simp: incrementStep_def)

subsection \<open>The explorations with global communication\<close>

text \<open>The ports planned in a step: \<open>plannedPorts\<close> as the planning leaves it, computed on
  the coordinator as the reshuffle left it.\<close>

definition treePlan :: "nat \<Rightarrow> GlobalCoordinator \<times> rng \<Rightarrow> int jsArray" where
  "treePlan stackLimit s = snd (snd (planTree stackLimit (fst (snd (reshuffle s)))))"

definition arbitraryPlan :: "nat \<Rightarrow> GlobalCoordinator \<times> rng \<Rightarrow> int jsArray" where
  "arbitraryPlan stackLimit s = snd (snd (planArbitrary stackLimit (fst (snd (reshuffle s)))))"

text \<open>A robot with a planned port that is traversable has gone through it, and the node
  it reached is marked.\<close>

definition arrived :: "Graph \<Rightarrow> int jsArray \<Rightarrow> Robot \<Rightarrow> Robot \<Rightarrow> bool jsArray \<Rightarrow> bool" where
  "arrived g plannedPorts robot robot' visited =
     (\<forall>port. arrayGet plannedPorts (robotId robot) = Some port \<and> port \<noteq> - 1
             \<and> traversable g robot port
        \<longrightarrow> movedThrough g robot port robot' \<and> isTrue visited (currentNode robot'))"

lemma treeMove_others:
  "j \<noteq> i \<Longrightarrow> robots (fst (snd (treeMove plannedPorts i s))) ! j = robots (fst s) ! j"
  by (auto simp: treeMove_def Let_def split: sum.splits option.splits)

lemma treeMove_length:
  "length (robots (fst (snd (treeMove plannedPorts i s)))) = length (robots (fst s))"
  by (auto simp: treeMove_def Let_def split: sum.splits option.splits)

lemma treeMove_arrived:
  assumes "i < length (robots (fst s))" and "treeMove plannedPorts i s = (None, s')"
  shows "arrived (graph (fst s)) plannedPorts (robots (fst s) ! i) (robots (fst s') ! i)
           (visitedNodes (fst s'))"
  unfolding arrived_def
proof (intro allI impI, elim conjE)
  fix port
  let ?c = "fst s" and ?robot = "robots (fst s) ! i"
  assume p: "arrayGet plannedPorts (robotId ?robot) = Some port" and ne: "port \<noteq> - 1"
    and "traversable (graph ?c) ?robot port"
  then obtain w where w: "getEdgeWeightFromPort (graph ?c) (currentNode ?robot) port = Inr w"
    and nonneg: "\<not> w < 0"
    by (auto simp: traversable_def)
  obtain n where n: "getAdjacentNodeFromPort (graph ?c) (currentNode ?robot) port = Inr n"
    using assms(2) p ne w nonneg
    by (cases "getAdjacentNodeFromPort (graph ?c) (currentNode ?robot) port")
      (auto simp: treeMove_def Let_def)
  from assms p ne w nonneg n
  have s': "fst s' = ?c\<lparr>robots := (robots ?c)
                [i := ?robot\<lparr>currentNode := n, portsTraversed := portsTraversed ?robot @ [port]\<rparr>],
              visitedNodes := markVisited (visitedNodes ?c) n\<rparr>"
    by (auto simp: treeMove_def Let_def)
  with assms(1) n
  show "movedThrough (graph ?c) ?robot port (robots (fst s') ! i)
        \<and> isTrue (visitedNodes (fst s')) (currentNode (robots (fst s') ! i))"
    by (simp add: movedThrough_def markVisited_marks)
qed

lemma adoptNode_robots: "robots (snd (adoptNode plannedNode fromNode c)) = robots c"
proof -
  have drop: "robots (snd (dropVisitedChild plannedNode childPort c')) = robots c'" for childPort c'
    by (auto simp: dropVisitedChild_def split: sum.splits option.splits)
  have loop: "robots (snd (forEachJS (dropVisitedChild plannedNode) ports c')) = robots c'" for ports c'
    by (rule forEachJS_invariant [where I = "\<lambda>c''. robots c'' = robots c'"]) (simp_all add: drop)
  show ?thesis
    unfolding adoptNode_def
    by (rule andThen_invariant [where I = "\<lambda>c'. robots c' = robots c"])
       (auto simp: loop split: sum.splits option.splits)
qed

lemma arbitraryMove_others:
  "j \<noteq> i \<Longrightarrow> robots (fst (snd (arbitraryMove plannedPorts i s))) ! j = robots (fst s) ! j"
  using adoptNode_robots [of _ _ "fst s"]
  by (auto simp: arbitraryMove_def Let_def split: sum.splits option.splits prod.splits)
     (metis snd_conv)+

lemma arbitraryMove_length:
  "length (robots (fst (snd (arbitraryMove plannedPorts i s)))) = length (robots (fst s))"
  using adoptNode_robots [of _ _ "fst s"]
  by (auto simp: arbitraryMove_def Let_def split: sum.splits option.splits prod.splits)
     (metis snd_conv)+

lemma arbitraryMove_arrived:
  assumes "i < length (robots (fst s))" and "arbitraryMove plannedPorts i s = (None, s')"
  shows "arrived (graph (fst s)) plannedPorts (robots (fst s) ! i) (robots (fst s') ! i)
           (visitedNodes (fst s'))"
  unfolding arrived_def
proof (intro allI impI, elim conjE)
  fix port
  let ?c = "fst s" and ?robot = "robots (fst s) ! i"
  assume p: "arrayGet plannedPorts (robotId ?robot) = Some port" and ne: "port \<noteq> - 1"
    and "traversable (graph ?c) ?robot port"
  then obtain w where w: "getEdgeWeightFromPort (graph ?c) (currentNode ?robot) port = Inr w"
    and nonneg: "\<not> w < 0"
    by (auto simp: traversable_def)
  obtain n where n: "getAdjacentNodeFromPort (graph ?c) (currentNode ?robot) port = Inr n"
    using assms(2) p ne w nonneg
    by (cases "getAdjacentNodeFromPort (graph ?c) (currentNode ?robot) port")
      (auto simp: arbitraryMove_def Let_def)
  obtain thrown c1 where a: "adoptNode n (currentNode ?robot) ?c = (thrown, c1)"
    by (cases "adoptNode n (currentNode ?robot) ?c")
  with adoptNode_robots [of n "currentNode ?robot" ?c] have r1: "robots c1 = robots ?c" by simp
  from assms p ne w nonneg n a
  have s': "fst s' = c1\<lparr>robots := (robots c1)
                [i := ?robot\<lparr>currentNode := n, portsTraversed := portsTraversed ?robot @ [port]\<rparr>],
              visitedNodes := markVisited (visitedNodes c1) n\<rparr>"
    by (cases thrown) (auto simp: arbitraryMove_def Let_def)
  with assms(1) n r1
  show "movedThrough (graph ?c) ?robot port (robots (fst s') ! i)
        \<and> isTrue (visitedNodes (fst s')) (currentNode (robots (fst s') ! i))"
    by (simp add: movedThrough_def markVisited_marks)
qed

lemma global_loop:
  fixes move :: "nat \<Rightarrow> GlobalCoordinator \<times> rng \<Rightarrow> (GlobalCoordinator \<times> rng) outcome"
  assumes others: "\<And>i j s. j \<noteq> i \<Longrightarrow> robots (fst (snd (move i s))) ! j = robots (fst s) ! j"
    and len: "\<And>i s. length (robots (fst (snd (move i s)))) = length (robots (fst s))"
    and frame: "\<And>i s. settled (fst s) (fst (snd (move i s)))"
    and est: "\<And>i s s'. i < length (robots (fst s)) \<Longrightarrow> move i s = (None, s')
                  \<Longrightarrow> arrived (graph (fst s)) plannedPorts (robots (fst s) ! i) (robots (fst s') ! i)
                        (visitedNodes (fst s'))"
    and run: "forEachJS move [0..<length (robots (fst s1))] s1 = (None, s2)"
    and i: "i < length (robots (fst s1))"
  shows "settled (fst s1) (fst s2) \<and> length (robots (fst s2)) = length (robots (fst s1))
       \<and> arrived (graph (fst s1)) plannedPorts (robots (fst s1) ! i) (robots (fst s2) ! i)
           (visitedNodes (fst s2))"
proof -
  let ?I = "\<lambda>s :: GlobalCoordinator \<times> rng.
              graph (fst s) = graph (fst s1) \<and> length (robots (fst s)) = length (robots (fst s1))"
  let ?Q = "\<lambda>(rb :: Robot) (j :: nat) (s :: GlobalCoordinator \<times> rng).
              arrived (graph (fst s1)) plannedPorts rb (robots (fst s) ! j) (visitedNodes (fst s))"
  have "(\<forall>i \<in> set [0..<length (robots (fst s1))]. ?Q (robots (fst s1) ! i) i s2)
        \<and> (\<forall>j. j \<notin> set [0..<length (robots (fst s1))] \<longrightarrow> robots (fst s2) ! j = robots (fst s1) ! j)
        \<and> ?I s2"
  proof (rule forEachJS_each [where f = move and rob = "\<lambda>s. robots (fst s)" and I = ?I and Q = ?Q])
    show "distinct [0..<length (robots (fst s1))]" by simp
    show "?I s1" by simp
    show "forEachJS move [0..<length (robots (fst s1))] s1 = (None, s2)" by (rule run)
  next
    fix i j :: nat and s :: "GlobalCoordinator \<times> rng" assume "j \<noteq> i"
    then show "robots (fst (snd (move i s))) ! j = robots (fst s) ! j" by (rule others)
  next
    fix i :: nat and s :: "GlobalCoordinator \<times> rng" assume "?I s"
    then show "?I (snd (move i s))" using frame [of s i] len [of i s] by (simp add: settled_def)
  next
    fix i :: nat and s s' :: "GlobalCoordinator \<times> rng"
    assume "i \<in> set [0..<length (robots (fst s1))]" and "?I s" and "move i s = (None, s')"
    then show "?Q (robots (fst s) ! i) i s'"
      using est [of i s s'] by simp
  next
    fix i j :: nat and rb :: Robot and s :: "GlobalCoordinator \<times> rng"
    assume ne: "j \<noteq> i" and q: "?Q rb j s"
    from ne have same: "robots (fst (snd (move i s))) ! j = robots (fst s) ! j" by (rule others)
    from frame [of s i]
    have "\<forall>n. isTrue (visitedNodes (fst s)) n \<longrightarrow> isTrue (visitedNodes (fst (snd (move i s)))) n"
      by (simp add: settled_def)
    with q same show "?Q rb j (snd (move i s))"
      unfolding arrived_def by auto
  qed
  moreover have "settled (fst s1) (fst (snd (forEachJS move [0..<length (robots (fst s1))] s1)))"
    by (rule forEachJS_settled) (rule frame)
  ultimately show ?thesis using i run by simp
qed

lemma injectRobots_eq:
  assumes "injectRobots s = (None, s')" and "i < length (robots (fst s))"
  shows "graph (fst s') = graph (fst s) \<and> robots (fst s') ! i = robots (fst s) ! i
         \<and> visitedNodes (fst s') = visitedNodes (fst s)"
proof -
  have "graph (fold (\<lambda>k. createRobot init n) xs c) = graph c
        \<and> visitedNodes (fold (\<lambda>k. createRobot init n) xs c) = visitedNodes c
        \<and> (\<exists>new. robots (fold (\<lambda>k. createRobot init n) xs c) = robots c @ new)"
    for init :: "Robot \<Rightarrow> Robot" and n xs and c :: GlobalCoordinator
  proof (induction xs rule: rev_induct)
    case Nil
    show ?case by simp
  next
    case (snoc x xs)
    then show ?case by (auto simp: createRobot_def)
  qed
  from this [of "\<lambda>robot. robot" 0 "[0..<numberOfRobotsToGenerate (fst s)]" "fst s"] assms
  show ?thesis
    by (auto simp: injectRobots_def createRobots_def nth_append)
qed

lemma after_moves:
  assumes "andThen (forEachJS move [0..<length (robots (fst s1))] s1)
             (\<lambda>s2. andThen (injectRobots s2) incrementStep) = (None, (c', r'))"
  obtains s2 where "forEachJS move [0..<length (robots (fst s1))] s1 = (None, s2)"
    and "\<And>i. i < length (robots (fst s2)) \<Longrightarrow>
           graph c' = graph (fst s2) \<and> robots c' ! i = robots (fst s2) ! i
           \<and> visitedNodes c' = visitedNodes (fst s2)"
proof -
  from assms obtain s2 where loop: "forEachJS move [0..<length (robots (fst s1))] s1 = (None, s2)"
    and rest: "andThen (injectRobots s2) incrementStep = (None, (c', r'))"
    by (rule andThen_returns)
  from rest obtain s3 where inj: "injectRobots s2 = (None, s3)" and inc: "incrementStep s3 = (None, (c', r'))"
    by (rule andThen_returns)
  have "graph c' = graph (fst s2) \<and> robots c' ! i = robots (fst s2) ! i
           \<and> visitedNodes c' = visitedNodes (fst s2)" if "i < length (robots (fst s2))" for i
    using injectRobots_eq [OF inj that] incrementStep_eq [OF inc] by simp
  with loop show thesis by (rule that)
qed

lemma stepTreeExploration_arrived:
  assumes step: "stepTreeExploration stackLimit (c, r) = (None, (c', r'))" and i: "i < length (robots c)"
  shows "arrived (graph c') (treePlan stackLimit (c, r)) (robots c ! i) (robots c' ! i) (visitedNodes c')"
proof -
  from step obtain s1 where s1: "reshuffle (c, r) = (None, s1)"
    and rest: "(case planTree stackLimit (fst s1) of
         (Some e, planned) \<Rightarrow> (Some e, (fst planned, snd s1))
       | (None, planned) \<Rightarrow>
           andThen (forEachJS (treeMove (snd planned)) [0..<length (robots (fst planned))]
                      (fst planned, snd s1)) (\<lambda>s2.
           andThen (injectRobots s2) incrementStep)) = (None, (c', r'))"
    unfolding stepTreeExploration_def by (rule andThen_returns)
  obtain thrown planned where p: "planTree stackLimit (fst s1) = (thrown, planned)"
    by (cases "planTree stackLimit (fst s1)")
  with rest have thrown: "thrown = None" by (cases thrown) simp_all
  from p planTree_coordinator [of stackLimit "fst s1"] have c1: "fst planned = fst s1" by simp
  from p s1 have plan: "treePlan stackLimit (c, r) = snd planned" by (simp add: treePlan_def)
  from s1 reshuffle_robots [of "(c, r)"] have r1: "robots (fst s1) = robots c" by simp
  let ?s1 = "(fst planned, snd s1)"
  from rest p thrown
  have "andThen (forEachJS (treeMove (snd planned)) [0..<length (robots (fst ?s1))] ?s1)
          (\<lambda>s2. andThen (injectRobots s2) incrementStep) = (None, (c', r'))" by simp
  then obtain s2 where loop: "forEachJS (treeMove (snd planned)) [0..<length (robots (fst ?s1))] ?s1 = (None, s2)"
    and fin: "\<And>i. i < length (robots (fst s2)) \<Longrightarrow>
           graph c' = graph (fst s2) \<and> robots c' ! i = robots (fst s2) ! i
           \<and> visitedNodes c' = visitedNodes (fst s2)"
    by (rule after_moves) blast
  from i r1 c1 have i1: "i < length (robots (fst ?s1))" by simp
  have "settled (fst ?s1) (fst s2) \<and> length (robots (fst s2)) = length (robots (fst ?s1))
       \<and> arrived (graph (fst ?s1)) (snd planned) (robots (fst ?s1) ! i) (robots (fst s2) ! i)
           (visitedNodes (fst s2))"
    by (rule global_loop [OF treeMove_others treeMove_length treeMove_settled treeMove_arrived loop i1])
  with fin [of i] i1 c1 r1 plan show ?thesis
    by (simp add: settled_def)
qed

lemma planArbitrary_robots: "robots (fst (snd (planArbitrary stackLimit c))) = robots c"
proof -
  have node: "robots (fst (snd (planArbitraryNode stackLimit n s))) = robots (fst s)" for n s
  proof (cases "ensureChildPorts n (fst s)")
    case (Pair thrown c1)
    then have "robots c1 = robots (fst s)"
      by (auto simp: ensureChildPorts_def split: option.splits sum.splits)
    with Pair show ?thesis
      by (cases thrown) (simp_all add: planArbitraryNode_def planNode_coordinator)
  qed
  show ?thesis
    unfolding planArbitrary_def
    using forEachJS_invariant [where I = "\<lambda>s'. robots (fst s') = robots c"
        and f = "planArbitraryNode stackLimit" and s = "(c, [])"] node
    by simp
qed

lemma stepArbitraryExploration_arrived:
  assumes step: "stepArbitraryExploration stackLimit (c, r) = (None, (c', r'))" and i: "i < length (robots c)"
  shows "arrived (graph c') (arbitraryPlan stackLimit (c, r)) (robots c ! i) (robots c' ! i) (visitedNodes c')"
proof -
  from step obtain s1 where s1: "reshuffle (c, r) = (None, s1)"
    and rest: "(case planArbitrary stackLimit (fst s1) of
         (Some e, planned) \<Rightarrow> (Some e, (fst planned, snd s1))
       | (None, planned) \<Rightarrow>
           andThen (forEachJS (arbitraryMove (snd planned)) [0..<length (robots (fst planned))]
                      (fst planned, snd s1)) (\<lambda>s2.
           andThen (injectRobots s2) incrementStep)) = (None, (c', r'))"
    unfolding stepArbitraryExploration_def by (rule andThen_returns)
  obtain thrown planned where p: "planArbitrary stackLimit (fst s1) = (thrown, planned)"
    by (cases "planArbitrary stackLimit (fst s1)")
  with rest have thrown: "thrown = None" by (cases thrown) simp_all
  from p planArbitrary_settled [of "fst s1" stackLimit] have c1: "settled (fst s1) (fst planned)" by simp
  from p planArbitrary_robots [of stackLimit "fst s1"] have rp: "robots (fst planned) = robots (fst s1)"
    by simp
  from p s1 have plan: "arbitraryPlan stackLimit (c, r) = snd planned" by (simp add: arbitraryPlan_def)
  from s1 reshuffle_robots [of "(c, r)"] have r1: "robots (fst s1) = robots c" by simp
  let ?s1 = "(fst planned, snd s1)"
  from rest p thrown
  have "andThen (forEachJS (arbitraryMove (snd planned)) [0..<length (robots (fst ?s1))] ?s1)
          (\<lambda>s2. andThen (injectRobots s2) incrementStep) = (None, (c', r'))" by simp
  then obtain s2 where loop: "forEachJS (arbitraryMove (snd planned)) [0..<length (robots (fst ?s1))] ?s1 = (None, s2)"
    and fin: "\<And>i. i < length (robots (fst s2)) \<Longrightarrow>
           graph c' = graph (fst s2) \<and> robots c' ! i = robots (fst s2) ! i
           \<and> visitedNodes c' = visitedNodes (fst s2)"
    by (rule after_moves) blast
  from i r1 rp have i1: "i < length (robots (fst ?s1))" by simp
  have "settled (fst ?s1) (fst s2) \<and> length (robots (fst s2)) = length (robots (fst ?s1))
       \<and> arrived (graph (fst ?s1)) (snd planned) (robots (fst ?s1) ! i) (robots (fst s2) ! i)
           (visitedNodes (fst s2))"
    by (rule global_loop [OF arbitraryMove_others arbitraryMove_length arbitraryMove_settled
          arbitraryMove_arrived loop i1])
  with fin [of i] i1 rp r1 plan show ?thesis
    by (simp add: settled_def)
qed

subsection \<open>The port a random walk draws\<close>

text \<open>
  The port that the robot in place \<open>i\<close> draws when its turn comes in the state \<open>s\<close>,
  \<open>Math.floor(Math.random() * numberOfPorts)\<close>; none when its node has no port. In the
  dispersion a robot draws only on a node that is marked.
\<close>

definition randomWalkPort :: "RandomWalkRobot RobotCoordinator \<times> rng \<Rightarrow> nat \<Rightarrow> int option" where
  "randomWalkPort s i =
     (case getNumberOfPorts (graph (fst s)) (currentNode (robots (fst s) ! i)) of
        Inl e \<Rightarrow> None
      | Inr numberOfPorts \<Rightarrow>
          if numberOfPorts = 0 then None
          else Some \<lfloor>timesJS (snd s 0) (real numberOfPorts)\<rfloor>)"

definition dispersionPort :: "RandomWalkRobot RobotCoordinator \<times> rng \<Rightarrow> nat \<Rightarrow> int option" where
  "dispersionPort s i =
     (if isTrue (visitedNodes (fst s)) (currentNode (robots (fst s) ! i))
      then randomWalkPort s i else None)"

text \<open>
  The coordinator and the random source when the turn of the robot in place \<open>i\<close> comes:
  the reshuffle is over, and the robots before it have had their turn (in the dispersion,
  those that were active).
\<close>

definition dispersionTurn ::
  "RandomWalkRobot RobotCoordinator \<times> rng \<Rightarrow> nat \<Rightarrow> RandomWalkRobot RobotCoordinator \<times> rng" where
  "dispersionTurn s i =
     (let s1 = snd (reshuffle s)
      in snd (forEachJS dispersionMove
                (filter (\<lambda>j. state (robots (fst s1) ! j) = Active) [0..<i]) s1))"

definition explorationTurn ::
  "RandomWalkRobot RobotCoordinator \<times> rng \<Rightarrow> nat \<Rightarrow> RandomWalkRobot RobotCoordinator \<times> rng" where
  "explorationTurn s i = (let s1 = snd (reshuffle s) in snd (forEachJS explorationMove [0..<i] s1))"

lemma forEachJS_append:
  "forEachJS f (xs @ ys) s =
     (case forEachJS f xs s of (Some e, s') \<Rightarrow> (Some e, s') | (None, s') \<Rightarrow> forEachJS f ys s')"
proof (induction xs arbitrary: s)
  case Nil
  show ?case by simp
next
  case (Cons x xs)
  show ?case
  proof (cases "f x s")
    case (Pair thrown s')
    then show ?thesis using Cons.IH [of s'] by (cases thrown) simp_all
  qed
qed

lemma forEachJS_turn:
  assumes "forEachJS f (pre @ i # post) s = (None, s2)"
  obtains sa sb where "forEachJS f pre s = (None, sa)" and "f i sa = (None, sb)"
    and "forEachJS f post sb = (None, s2)"
proof -
  obtain t1 sa where a: "forEachJS f pre s = (t1, sa)" by (cases "forEachJS f pre s")
  with assms have t1: "t1 = None" by (cases t1) (simp_all add: forEachJS_append)
  obtain t2 sb where b: "f i sa = (t2, sb)" by (cases "f i sa")
  with assms a t1 have t2: "t2 = None" by (cases t2) (simp_all add: forEachJS_append)
  from assms a t1 b t2 have "forEachJS f post sb = (None, s2)" by (simp add: forEachJS_append)
  with a t1 b t2 that show thesis by simp
qed

lemma randomWalkMove_pinned:
  assumes "i < length (robots (fst s))" and "randomWalkMove i s = (None, s')"
    and port: "randomWalkPort s i = Some port"
    and trav: "traversable (graph (fst s)) (robots (fst s) ! i) port"
  shows "movedThrough (graph (fst s)) (robots (fst s) ! i) port (robots (fst s') ! i)"
proof -
  let ?c = "fst s" and ?robot = "robots (fst s) ! i"
  from port obtain numberOfPorts
    where n: "getNumberOfPorts (graph ?c) (currentNode ?robot) = Inr numberOfPorts"
      and pos: "numberOfPorts \<noteq> 0"
      and p: "port = \<lfloor>timesJS (snd s 0) (real numberOfPorts)\<rfloor>"
    by (auto simp: randomWalkPort_def split: sum.splits if_splits)
  from trav obtain w where w: "getEdgeWeightFromPort (graph ?c) (currentNode ?robot) port = Inr w"
    and nonneg: "\<not> w < 0"
    by (auto simp: traversable_def)
  obtain n' where n': "getAdjacentNodeFromPort (graph ?c) (currentNode ?robot) port = Inr n'"
    using assms(2) n pos p w nonneg
    by (cases "getAdjacentNodeFromPort (graph ?c) (currentNode ?robot) port")
      (auto simp: randomWalkMove_def Let_def random_def)
  with assms(1,2) n pos p w nonneg
  have "robots (fst s') ! i
        = ?robot\<lparr>currentNode := n', portsTraversed := portsTraversed ?robot @ [port]\<rparr>"
    by (auto simp: randomWalkMove_def Let_def random_def)
  with n' show ?thesis by (simp add: movedThrough_def)
qed

lemma dispersionMove_pinned:
  assumes "i < length (robots (fst s))" and "dispersionMove i s = (None, s')"
    and port: "dispersionPort s i = Some port"
    and trav: "traversable (graph (fst s)) (robots (fst s) ! i) port"
  shows "movedThrough (graph (fst s)) (robots (fst s) ! i) port (robots (fst s') ! i)"
proof -
  from port have v: "isTrue (visitedNodes (fst s)) (currentNode (robots (fst s) ! i))"
    and p: "randomWalkPort s i = Some port"
    by (auto simp: dispersionPort_def split: if_splits)
  from v assms(2) have "randomWalkMove i s = (None, s')" by (simp add: dispersionMove_def Let_def)
  from randomWalkMove_pinned [OF assms(1) this p trav] show ?thesis .
qed

lemma explorationMove_pinned:
  assumes "i < length (robots (fst s))" and "explorationMove i s = (None, s')"
    and port: "randomWalkPort s i = Some port"
    and trav: "traversable (graph (fst s)) (robots (fst s) ! i) port"
  shows "movedThrough (graph (fst s)) (robots (fst s) ! i) port (robots (fst s') ! i)"
proof -
  let ?s = "((fst s)\<lparr>visitedNodes := markVisited (visitedNodes (fst s))
                                  (currentNode (robots (fst s) ! i))\<rparr>, snd s)"
  from assms(2) have m: "randomWalkMove i ?s = (None, s')" unfolding explorationMove_eq .
  from port have p: "randomWalkPort ?s i = Some port"
    by (auto simp: randomWalkPort_def split: sum.splits if_splits)
  from randomWalkMove_pinned [of i ?s s' port] assms(1) m p trav show ?thesis by simp
qed

text \<open>A loop of one of the two callbacks, split at the turn of the robot in place \<open>i\<close>.\<close>

lemma randomWalk_turn:
  fixes move :: "nat \<Rightarrow> RandomWalkRobot RobotCoordinator \<times> rng \<Rightarrow> (RandomWalkRobot RobotCoordinator \<times> rng) outcome"
  assumes others: "\<And>i j s. j \<noteq> i \<Longrightarrow> robots (fst (snd (move i s))) ! j = robots (fst s) ! j"
    and frame: "\<And>i s. graph (fst (snd (move i s))) = graph (fst s)
                  \<and> length (robots (fst (snd (move i s)))) = length (robots (fst s))"
    and est: "\<And>s s'. i < length (robots (fst s)) \<Longrightarrow> move i s = (None, s') \<Longrightarrow> portOf s i = Some port
                  \<Longrightarrow> traversable (graph (fst s)) (robots (fst s) ! i) port
                  \<Longrightarrow> movedThrough (graph (fst s)) (robots (fst s) ! i) port (robots (fst s') ! i)"
    and run: "forEachJS move (pre @ i # post) s1 = (None, s2)"
    and i: "i \<notin> set pre" "i \<notin> set post" "i < length (robots (fst s1))"
    and port: "portOf (snd (forEachJS move pre s1)) i = Some port"
    and trav: "traversable (graph (fst s1)) (robots (fst s1) ! i) port"
  shows "movedThrough (graph (fst s1)) (robots (fst s1) ! i) port (robots (fst s2) ! i)
         \<and> graph (fst s2) = graph (fst s1)"
proof -
  have keep: "graph (fst (snd (forEachJS move xs s))) = graph (fst s)
              \<and> length (robots (fst (snd (forEachJS move xs s)))) = length (robots (fst s))
              \<and> (i \<notin> set xs \<longrightarrow> robots (fst (snd (forEachJS move xs s))) ! i = robots (fst s) ! i)"
    for xs and s :: "RandomWalkRobot RobotCoordinator \<times> rng"
  proof (rule forEachJS_invariant
      [where I = "\<lambda>s' :: RandomWalkRobot RobotCoordinator \<times> rng. graph (fst s') = graph (fst s)
              \<and> length (robots (fst s')) = length (robots (fst s))
              \<and> (i \<notin> set xs \<longrightarrow> robots (fst s') ! i = robots (fst s) ! i)"])
    fix x and s' :: "RandomWalkRobot RobotCoordinator \<times> rng"
    assume x: "x \<in> set xs"
      and inv: "graph (fst s') = graph (fst s) \<and> length (robots (fst s')) = length (robots (fst s))
           \<and> (i \<notin> set xs \<longrightarrow> robots (fst s') ! i = robots (fst s) ! i)"
    have "robots (fst (snd (move x s'))) ! i = robots (fst s') ! i" if "i \<notin> set xs"
    proof -
      from that x have "i \<noteq> x" by auto
      then show ?thesis by (rule others)
    qed
    with inv show "graph (fst (snd (move x s'))) = graph (fst s)
           \<and> length (robots (fst (snd (move x s')))) = length (robots (fst s))
           \<and> (i \<notin> set xs \<longrightarrow> robots (fst (snd (move x s'))) ! i = robots (fst s) ! i)"
      using frame [of x s'] by simp
  qed simp
  from run obtain sa sb where a: "forEachJS move pre s1 = (None, sa)" and b: "move i sa = (None, sb)"
    and c: "forEachJS move post sb = (None, s2)"
    by (rule forEachJS_turn)
  from keep [of pre s1] a i(1)
  have sa: "graph (fst sa) = graph (fst s1)" "length (robots (fst sa)) = length (robots (fst s1))"
    "robots (fst sa) ! i = robots (fst s1) ! i" by simp_all
  from port a have "portOf sa i = Some port" by simp
  from est [OF _ b this] sa i(3) trav
  have moved: "movedThrough (graph (fst s1)) (robots (fst s1) ! i) port (robots (fst sb) ! i)" by simp
  from frame [of i sa] b sa have sb: "graph (fst sb) = graph (fst s1)" by simp
  from keep [of post sb] c i(2) sb
  have "graph (fst s2) = graph (fst s1)" "robots (fst s2) ! i = robots (fst sb) ! i" by simp_all
  with moved show ?thesis by simp
qed

lemma stepRandomWalkDispersion_pinned:
  assumes step: "stepRandomWalkDispersion (c, r) = (None, (c', r'))" and i: "i < length (robots c)"
    and active: "state (robots c ! i) = Active"
    and port: "dispersionPort (dispersionTurn (c, r) i) i = Some port"
    and trav: "traversable (graph c') (robots c ! i) port"
  shows "movedThrough (graph c') (robots c ! i) port (robots c' ! i)"
proof -
  from step obtain s1 where s1: "reshuffle (c, r) = (None, s1)"
    and rest: "andThen (forEachJS dispersionMove
                (filter (\<lambda>i. state (robots (fst s1) ! i) = Active) [0..<length (robots (fst s1))]) s1)
       incrementStep = (None, (c', r'))"
    unfolding stepRandomWalkDispersion_def by (rule andThen_returns)
  let ?P = "\<lambda>j. state (robots (fst s1) ! j) = Active"
  from rest obtain s2 where loop: "forEachJS dispersionMove (filter ?P [0..<length (robots (fst s1))]) s1
                = (None, s2)"
    and inc: "incrementStep s2 = (None, (c', r'))"
    by (rule andThen_returns)
  from s1 reshuffle_robots [of "(c, r)"] have r1: "robots (fst s1) = robots c" by simp
  from i r1 have "[0..<length (robots (fst s1))] = [0..<i] @ i # [Suc i..<length (robots (fst s1))]"
    by (metis le_add1 less_imp_add_positive upt_add_eq_append upt_conv_Cons add_0)
  with active r1
  have split: "filter ?P [0..<length (robots (fst s1))]
               = filter ?P [0..<i] @ i # filter ?P [Suc i..<length (robots (fst s1))]"
    by simp
  from port s1 have p: "dispersionPort (snd (forEachJS dispersionMove (filter ?P [0..<i]) s1)) i = Some port"
    by (simp add: dispersionTurn_def)
  have g2: "graph c' = graph (fst s2)" and rob2: "robots c' = robots (fst s2)"
    using incrementStep_eq [OF inc] by simp_all
  have "movedThrough (graph (fst s1)) (robots (fst s1) ! i) port (robots (fst s2) ! i)
        \<and> graph (fst s2) = graph (fst s1)"
  proof (rule randomWalk_turn [where move = dispersionMove and portOf = dispersionPort
        and pre = "filter ?P [0..<i]" and post = "filter ?P [Suc i..<length (robots (fst s1))]"])
    show "forEachJS dispersionMove
            (filter ?P [0..<i] @ i # filter ?P [Suc i..<length (robots (fst s1))]) s1 = (None, s2)"
      using loop split by simp
    show "dispersionPort (snd (forEachJS dispersionMove (filter ?P [0..<i]) s1)) i = Some port"
      by (rule p)
    have "graph (fst s2) = graph (fst s1)"
      using forEachJS_invariant [where I = "\<lambda>s' :: RandomWalkRobot RobotCoordinator \<times> rng.
                graph (fst s') = graph (fst s1)" and f = dispersionMove
            and xs = "filter ?P [0..<length (robots (fst s1))]" and s = s1]
        dispersionMove_frame loop by simp
    with trav g2 r1 show "traversable (graph (fst s1)) (robots (fst s1) ! i) port" by simp
  qed (use i r1 in \<open>simp_all add: dispersionMove_others dispersionMove_frame dispersionMove_pinned\<close>)
  with g2 rob2 r1 show ?thesis by simp
qed

lemma stepRandomWalkExploration_pinned:
  assumes step: "stepRandomWalkExploration (c, r) = (None, (c', r'))" and i: "i < length (robots c)"
    and port: "randomWalkPort (explorationTurn (c, r) i) i = Some port"
    and trav: "traversable (graph c') (robots c ! i) port"
  shows "movedThrough (graph c') (robots c ! i) port (robots c' ! i)"
proof -
  from step obtain s1 where s1: "reshuffle (c, r) = (None, s1)"
    and rest: "andThen (forEachJS explorationMove [0..<length (robots (fst s1))] s1)
       incrementStep = (None, (c', r'))"
    unfolding stepRandomWalkExploration_def by (rule andThen_returns)
  from rest obtain s2 where loop: "forEachJS explorationMove [0..<length (robots (fst s1))] s1 = (None, s2)"
    and inc: "incrementStep s2 = (None, (c', r'))"
    by (rule andThen_returns)
  from s1 reshuffle_robots [of "(c, r)"] have r1: "robots (fst s1) = robots c" by simp
  from i r1 have split: "[0..<length (robots (fst s1))] = [0..<i] @ i # [Suc i..<length (robots (fst s1))]"
    by (metis le_add1 less_imp_add_positive upt_add_eq_append upt_conv_Cons add_0)
  from port s1 have p: "randomWalkPort (snd (forEachJS explorationMove [0..<i] s1)) i = Some port"
    by (simp add: explorationTurn_def)
  have g2: "graph c' = graph (fst s2)" and rob2: "robots c' = robots (fst s2)"
    using incrementStep_eq [OF inc] by simp_all
  have "movedThrough (graph (fst s1)) (robots (fst s1) ! i) port (robots (fst s2) ! i)
        \<and> graph (fst s2) = graph (fst s1)"
  proof (rule randomWalk_turn [where move = explorationMove and portOf = randomWalkPort
        and pre = "[0..<i]" and post = "[Suc i..<length (robots (fst s1))]"])
    show "forEachJS explorationMove ([0..<i] @ i # [Suc i..<length (robots (fst s1))]) s1 = (None, s2)"
      using loop split by simp
    show "randomWalkPort (snd (forEachJS explorationMove [0..<i] s1)) i = Some port"
      by (rule p)
    have "graph (fst s2) = graph (fst s1)"
      using forEachJS_invariant [where I = "\<lambda>s' :: RandomWalkRobot RobotCoordinator \<times> rng.
                graph (fst s') = graph (fst s1)" and f = explorationMove
            and xs = "[0..<length (robots (fst s1))]" and s = s1]
        explorationMove_frame loop by simp
    with trav g2 r1 show "traversable (graph (fst s1)) (robots (fst s1) ! i) port" by simp
  qed (use i r1 in \<open>simp_all add: explorationMove_others explorationMove_frame explorationMove_pinned\<close>)
  with g2 rob2 r1 show ?thesis by simp
qed

subsection \<open>Every coordinator, and the first step of four of them\<close>

text \<open>The shares of 55 robots between two ports with 3 and 8 boundary nodes behind them:
  \<open>3 / 11 * 55\<close> comes out under 15, and the robot left over goes to the second port.\<close>

lemma robotsToEachChildPort_rounded: "robotsToEachChildPort [3, 8] 55 = [14, 41]"
  by code_simp

text \<open>\<open>c = new RandomWalkExplorationRobotCoordinator(cycle5, Infinity, 1, 1, 0);
  c.createRobots(1, 0)\<close>, and a random source that gives 0 ten times, for the reshuffle of
  the ten edge objects, and then \<open>1/2\<close>.\<close>

definition walkerOnCycle5 :: "RandomWalkRobot RobotCoordinator" where
  "walkerOnCycle5 = createRobots activeRobot 1 0 (newRandomWalkCoordinator cycle5 \<infinity> 1 1 0)"

definition halfAfterTen :: rng where
  "halfAfterTen i = (if i < 10 then 0 else 1 / 2)"

lemma walkerOnCycle5_first_step:
  "fst (stepRandomWalkExploration (walkerOnCycle5, halfAfterTen)) = None"
  "0 < length (robots walkerOnCycle5)"
  "randomWalkPort (explorationTurn (walkerOnCycle5, halfAfterTen) 0) 0 = Some 1"
  "getEdgeWeightFromPort (graph (fst (snd (stepRandomWalkExploration (walkerOnCycle5, halfAfterTen)))))
     (currentNode (robots walkerOnCycle5 ! 0)) 1 = Inr 1"
  "currentNode (robots (fst (snd (stepRandomWalkExploration (walkerOnCycle5, halfAfterTen)))) ! 0) = 4"
  by code_simp+

lemma walkerOnPath2_turn:
  "state (robots walkerOnPath2 ! 0) = Active"
  "dispersionPort (dispersionTurn (walkerOnPath2, \<lambda>i. 0) 0) 0 = Some 0"
  "randomWalkPort (explorationTurn (walkerOnPath2, \<lambda>i. 0) 0) 0 = Some 0"
  by code_simp+

lemma treeOnPath3_first_step:
  "fst (stepTreeExploration 100 (treeOnPath3, \<lambda>i. 0)) = None"
  "0 < length (robots treeOnPath3)"
  "arrayGet (treePlan 100 (treeOnPath3, \<lambda>i. 0)) (robotId (robots treeOnPath3 ! 0)) = Some 0"
  "getEdgeWeightFromPort (graph (fst (snd (stepTreeExploration 100 (treeOnPath3, \<lambda>i. 0)))))
     (currentNode (robots treeOnPath3 ! 0)) 0 = Inr 1"
  by code_simp+

lemma explorersOnCycle5_first_step:
  "fst (stepArbitraryExploration 100 (explorersOnCycle5, \<lambda>i. 0)) = None"
  "1 < length (robots explorersOnCycle5)"
  "arrayGet (arbitraryPlan 100 (explorersOnCycle5, \<lambda>i. 0)) (robotId (robots explorersOnCycle5 ! 1)) = Some 1"
  "getEdgeWeightFromPort (graph (fst (snd (stepArbitraryExploration 100 (explorersOnCycle5, \<lambda>i. 0)))))
     (currentNode (robots explorersOnCycle5 ! 1)) 1 = Inr 1"
  by code_simp+

lemma walkerOnPath2_moves:
  "0 < length (robots walkerOnPath2)"
  "getEdgeWeightFromPort (graph (fst (snd (stepRandomWalkDispersion (walkerOnPath2, \<lambda>i. 0)))))
     (currentNode (robots walkerOnPath2 ! 0)) 0 = Inr 1"
  "getAdjacentNodeFromPort (graph (fst (snd (stepRandomWalkDispersion (walkerOnPath2, \<lambda>i. 0)))))
     (currentNode (robots walkerOnPath2 ! 0)) 0
   = Inr (currentNode (robots (fst (snd (stepRandomWalkDispersion (walkerOnPath2, \<lambda>i. 0)))) ! 0))"
  "portsTraversed (robots (fst (snd (stepRandomWalkDispersion (walkerOnPath2, \<lambda>i. 0)))) ! 0)
   = portsTraversed (robots walkerOnPath2 ! 0) @ [0]"
  "isTrue (visitedNodes (fst (snd (stepRandomWalkDispersion (walkerOnPath2, \<lambda>i. 0)))))
     (currentNode (robots (fst (snd (stepRandomWalkDispersion (walkerOnPath2, \<lambda>i. 0)))) ! 0)) = False"
  "getEdgeWeightFromPort (graph (fst (snd (stepRandomWalkExploration (walkerOnPath2, \<lambda>i. 0)))))
     (currentNode (robots walkerOnPath2 ! 0)) 0 = Inr 1"
  "getAdjacentNodeFromPort (graph (fst (snd (stepRandomWalkExploration (walkerOnPath2, \<lambda>i. 0)))))
     (currentNode (robots walkerOnPath2 ! 0)) 0
   = Inr (currentNode (robots (fst (snd (stepRandomWalkExploration (walkerOnPath2, \<lambda>i. 0)))) ! 0))"
  "portsTraversed (robots (fst (snd (stepRandomWalkExploration (walkerOnPath2, \<lambda>i. 0)))) ! 0)
   = portsTraversed (robots walkerOnPath2 ! 0) @ [0]"
  "isTrue (visitedNodes (fst (snd (stepRandomWalkExploration (walkerOnPath2, \<lambda>i. 0)))))
     (currentNode (robots (fst (snd (stepRandomWalkExploration (walkerOnPath2, \<lambda>i. 0)))) ! 0)) = False"
  by code_simp+

lemma returned: "fst (f :: ('a \<times> 'b) outcome) = None \<Longrightarrow> f = (None, (fst (snd f), snd (snd f)))"
  by (metis prod.collapse)

text \<open>
  C2, for the two random walks as the code has it. On the path of two nodes, with one robot
  put on node 0, every draw of \<open>Math.random()\<close> equal to 0 and every edge kept, the robot
  draws port 0, whose weight is 1. The step returns, the robot stands on node 1 and has
  recorded port 0, and \<open>visitedNodes[1]\<close> is still false: a random walk marks the node a
  robot stands on when the turn of a robot starts there, not when a robot arrives.
\<close>

theorem random_walk_leaves_new_node_unmarked:
  "fst (stepRandomWalkDispersion (walkerOnPath2, \<lambda>i. 0)) = None
   \<and> traversable (graph (fst (snd (stepRandomWalkDispersion (walkerOnPath2, \<lambda>i. 0)))))
       (robots walkerOnPath2 ! 0) 0
   \<and> movedThrough (graph (fst (snd (stepRandomWalkDispersion (walkerOnPath2, \<lambda>i. 0)))))
       (robots walkerOnPath2 ! 0) 0
       (robots (fst (snd (stepRandomWalkDispersion (walkerOnPath2, \<lambda>i. 0)))) ! 0)
   \<and> \<not> isTrue (visitedNodes (fst (snd (stepRandomWalkDispersion (walkerOnPath2, \<lambda>i. 0)))))
         (currentNode (robots (fst (snd (stepRandomWalkDispersion (walkerOnPath2, \<lambda>i. 0)))) ! 0))
   \<and> fst (stepRandomWalkExploration (walkerOnPath2, \<lambda>i. 0)) = None
   \<and> traversable (graph (fst (snd (stepRandomWalkExploration (walkerOnPath2, \<lambda>i. 0)))))
       (robots walkerOnPath2 ! 0) 0
   \<and> movedThrough (graph (fst (snd (stepRandomWalkExploration (walkerOnPath2, \<lambda>i. 0)))))
       (robots walkerOnPath2 ! 0) 0
       (robots (fst (snd (stepRandomWalkExploration (walkerOnPath2, \<lambda>i. 0)))) ! 0)
   \<and> \<not> isTrue (visitedNodes (fst (snd (stepRandomWalkExploration (walkerOnPath2, \<lambda>i. 0)))))
         (currentNode (robots (fst (snd (stepRandomWalkExploration (walkerOnPath2, \<lambda>i. 0)))) ! 0))"
  using walkerOnPath2_first_step(1,5) walkerOnPath2_moves(2-9)
  unfolding traversable_def movedThrough_def by simp

text \<open>
  C2, amended. In a step that returns, with the edge weights as the step's reshuffle left
  them, a robot whose intended port has a non-negative edge weight stands on the adjacent
  node at that port after the step and has recorded the port last. The intended port is
  \<^item> in the two random walks, the port the robot draws when its turn comes; in the
    dispersion a robot draws only if it is active and the node it stands on is marked;
  \<^item> in the tree exploration and in the exploration of an arbitrary graph, the port the
    planning of the step gave it, if that is not -1.

  In the two explorations with planning \<open>visitedNodes\<close> is true at the node the robot stands
  on after the step. In the two random walks this is not promised.
\<close>

theorem step_moves_each_robot:
  "(stepRandomWalkDispersion (w, r) = (None, (w', r')) \<and> i < length (robots w)
      \<and> state (robots w ! i) = Active
      \<and> dispersionPort (dispersionTurn (w, r) i) i = Some port
      \<and> traversable (graph w') (robots w ! i) port
      \<longrightarrow> movedThrough (graph w') (robots w ! i) port (robots w' ! i))
   \<and> (stepRandomWalkExploration (w, r) = (None, (w', r')) \<and> i < length (robots w)
      \<and> randomWalkPort (explorationTurn (w, r) i) i = Some port
      \<and> traversable (graph w') (robots w ! i) port
      \<longrightarrow> movedThrough (graph w') (robots w ! i) port (robots w' ! i))
   \<and> (stepTreeExploration stackLimit (c, r) = (None, (c', r')) \<and> i < length (robots c)
      \<and> arrayGet (treePlan stackLimit (c, r)) (robotId (robots c ! i)) = Some port \<and> port \<noteq> - 1
      \<and> traversable (graph c') (robots c ! i) port
      \<longrightarrow> movedThrough (graph c') (robots c ! i) port (robots c' ! i)
          \<and> isTrue (visitedNodes c') (currentNode (robots c' ! i)))
   \<and> (stepArbitraryExploration stackLimit (c, r) = (None, (c', r')) \<and> i < length (robots c)
      \<and> arrayGet (arbitraryPlan stackLimit (c, r)) (robotId (robots c ! i)) = Some port \<and> port \<noteq> - 1
      \<and> traversable (graph c') (robots c ! i) port
      \<longrightarrow> movedThrough (graph c') (robots c ! i) port (robots c' ! i)
          \<and> isTrue (visitedNodes c') (currentNode (robots c' ! i)))"
proof (intro conjI impI; elim conjE)
  assume "stepRandomWalkDispersion (w, r) = (None, (w', r'))" "i < length (robots w)"
    "state (robots w ! i) = Active" "dispersionPort (dispersionTurn (w, r) i) i = Some port"
    "traversable (graph w') (robots w ! i) port"
  then show "movedThrough (graph w') (robots w ! i) port (robots w' ! i)"
    by (rule stepRandomWalkDispersion_pinned)
next
  assume "stepRandomWalkExploration (w, r) = (None, (w', r'))" "i < length (robots w)"
    "randomWalkPort (explorationTurn (w, r) i) i = Some port"
    "traversable (graph w') (robots w ! i) port"
  then show "movedThrough (graph w') (robots w ! i) port (robots w' ! i)"
    by (rule stepRandomWalkExploration_pinned)
next
  assume "stepTreeExploration stackLimit (c, r) = (None, (c', r'))" "i < length (robots c)"
    and p: "arrayGet (treePlan stackLimit (c, r)) (robotId (robots c ! i)) = Some port" "port \<noteq> - 1"
      "traversable (graph c') (robots c ! i) port"
  then have "arrived (graph c') (treePlan stackLimit (c, r)) (robots c ! i) (robots c' ! i)
               (visitedNodes c')"
    by (simp add: stepTreeExploration_arrived)
  with p show "movedThrough (graph c') (robots c ! i) port (robots c' ! i)"
    and "isTrue (visitedNodes c') (currentNode (robots c' ! i))"
    unfolding arrived_def by blast+
next
  assume "stepArbitraryExploration stackLimit (c, r) = (None, (c', r'))" "i < length (robots c)"
    and p: "arrayGet (arbitraryPlan stackLimit (c, r)) (robotId (robots c ! i)) = Some port" "port \<noteq> - 1"
      "traversable (graph c') (robots c ! i) port"
  then have "arrived (graph c') (arbitraryPlan stackLimit (c, r)) (robots c ! i) (robots c' ! i)
               (visitedNodes c')"
    by (simp add: stepArbitraryExploration_arrived)
  with p show "movedThrough (graph c') (robots c ! i) port (robots c' ! i)"
    and "isTrue (visitedNodes c') (currentNode (robots c' ! i))"
    unfolding arrived_def by blast+
qed

theorem step_moves_each_robot_witness:
  "movedThrough (graph (fst (snd (stepRandomWalkDispersion (walkerOnPath2, \<lambda>i. 0)))))
     (robots walkerOnPath2 ! 0) 0
     (robots (fst (snd (stepRandomWalkDispersion (walkerOnPath2, \<lambda>i. 0)))) ! 0)
   \<and> movedThrough (graph (fst (snd (stepRandomWalkExploration (walkerOnCycle5, halfAfterTen)))))
     (robots walkerOnCycle5 ! 0) 1
     (robots (fst (snd (stepRandomWalkExploration (walkerOnCycle5, halfAfterTen)))) ! 0)
   \<and> currentNode (robots (fst (snd (stepRandomWalkExploration (walkerOnCycle5, halfAfterTen)))) ! 0) = 4
   \<and> movedThrough (graph (fst (snd (stepTreeExploration 100 (treeOnPath3, \<lambda>i. 0)))))
       (robots treeOnPath3 ! 0) 0
       (robots (fst (snd (stepTreeExploration 100 (treeOnPath3, \<lambda>i. 0)))) ! 0)
   \<and> isTrue (visitedNodes (fst (snd (stepTreeExploration 100 (treeOnPath3, \<lambda>i. 0)))))
       (currentNode (robots (fst (snd (stepTreeExploration 100 (treeOnPath3, \<lambda>i. 0)))) ! 0))
   \<and> movedThrough (graph (fst (snd (stepArbitraryExploration 100 (explorersOnCycle5, \<lambda>i. 0)))))
       (robots explorersOnCycle5 ! 1) 1
       (robots (fst (snd (stepArbitraryExploration 100 (explorersOnCycle5, \<lambda>i. 0)))) ! 1)
   \<and> isTrue (visitedNodes (fst (snd (stepArbitraryExploration 100 (explorersOnCycle5, \<lambda>i. 0)))))
       (currentNode (robots (fst (snd (stepArbitraryExploration 100 (explorersOnCycle5, \<lambda>i. 0)))) ! 1))"
proof -
  let ?r = "\<lambda>i :: nat. 0 :: real"
  let ?d = "stepRandomWalkDispersion (walkerOnPath2, ?r)"
  let ?e = "stepRandomWalkExploration (walkerOnCycle5, halfAfterTen)"
  let ?t = "stepTreeExploration 100 (treeOnPath3, ?r)"
  let ?a = "stepArbitraryExploration 100 (explorersOnCycle5, ?r)"
  have d: "?d = (None, (fst (snd ?d), snd (snd ?d)))"
    using walkerOnPath2_first_step(1) by (rule returned)
  have e: "?e = (None, (fst (snd ?e), snd (snd ?e)))"
    using walkerOnCycle5_first_step(1) by (rule returned)
  have t: "?t = (None, (fst (snd ?t), snd (snd ?t)))"
    using treeOnPath3_first_step(1) by (rule returned)
  have a: "?a = (None, (fst (snd ?a), snd (snd ?a)))"
    using explorersOnCycle5_first_step(1) by (rule returned)
  have "traversable (graph (fst (snd ?d))) (robots walkerOnPath2 ! 0) 0"
    using walkerOnPath2_moves(2) by (simp add: traversable_def)
  then have "movedThrough (graph (fst (snd ?d))) (robots walkerOnPath2 ! 0) 0 (robots (fst (snd ?d)) ! 0)"
    using step_moves_each_robot [where w = walkerOnPath2 and r = ?r and w' = "fst (snd ?d)"
        and r' = "snd (snd ?d)" and i = 0 and port = 0]
      d walkerOnPath2_moves(1) walkerOnPath2_turn(1,2)
    by blast
  moreover
  have "traversable (graph (fst (snd ?e))) (robots walkerOnCycle5 ! 0) 1"
    using walkerOnCycle5_first_step(4) by (simp add: traversable_def)
  then have "movedThrough (graph (fst (snd ?e))) (robots walkerOnCycle5 ! 0) 1 (robots (fst (snd ?e)) ! 0)"
    using step_moves_each_robot [where w = walkerOnCycle5 and r = halfAfterTen and w' = "fst (snd ?e)"
        and r' = "snd (snd ?e)" and i = 0 and port = 1]
      e walkerOnCycle5_first_step(2,3)
    by blast
  moreover
  have "traversable (graph (fst (snd ?t))) (robots treeOnPath3 ! 0) 0"
    using treeOnPath3_first_step(4) by (simp add: traversable_def)
  then have "movedThrough (graph (fst (snd ?t))) (robots treeOnPath3 ! 0) 0 (robots (fst (snd ?t)) ! 0)
     \<and> isTrue (visitedNodes (fst (snd ?t))) (currentNode (robots (fst (snd ?t)) ! 0))"
    using step_moves_each_robot [where c = treeOnPath3 and r = ?r and c' = "fst (snd ?t)"
        and r' = "snd (snd ?t)" and i = 0 and stackLimit = 100 and port = 0]
      t treeOnPath3_first_step(2,3)
    by force
  moreover
  have "traversable (graph (fst (snd ?a))) (robots explorersOnCycle5 ! 1) 1"
    using explorersOnCycle5_first_step(4) by (simp add: traversable_def)
  then have "movedThrough (graph (fst (snd ?a))) (robots explorersOnCycle5 ! 1) 1 (robots (fst (snd ?a)) ! 1)
     \<and> isTrue (visitedNodes (fst (snd ?a))) (currentNode (robots (fst (snd ?a)) ! 1))"
    using step_moves_each_robot [where c = explorersOnCycle5 and r = ?r and c' = "fst (snd ?a)"
        and r' = "snd (snd ?a)" and i = 1 and stackLimit = 100 and port = 1]
      a explorersOnCycle5_first_step(2,3)
    by force
  ultimately show ?thesis using walkerOnCycle5_first_step(5) by blast
qed

section \<open>graph.ts on a store: what deepCopyNodes shares\<close>

text \<open>
  In the sections above a graph is a value, and a copy of a value cannot change. Whether the
  array that \<open>deepCopyNodes\<close> returns shares an object with the graph it was taken from can
  only be asked where objects have an identity. This section embeds the \<open>Graph\<close> class a
  second time, from the same source, over a store: every array, every vertex object and
  every edge object lives at an address, an array holds the addresses of its elements, a
  vertex holds the address of its \<open>edges\<close> array, and an assignment to a property overwrites
  the object at its address.

  A weight is any number of JavaScript here, since \<open>JSON.stringify\<close> tells the finite
  ones from the others, and \<open>null\<close>, which is what \<open>JSON.parse\<close> gives back for a number
  that \<open>JSON.stringify\<close> could not write.
\<close>

datatype jsNumber = Num real | NaN | PosInfinity | NegInfinity | Null

datatype object =
    ArrayObject "nat list"
  | VertexObject jsNumber nat
  | EdgeObject jsNumber nat

type_synonym store = "object list"

definition load :: "store \<Rightarrow> nat \<Rightarrow> object option" where
  "load h a = (if a < length h then Some (h ! a) else None)"

definition allocate :: "object \<Rightarrow> store \<Rightarrow> nat \<times> store" where
  "allocate obj h = (length h, h @ [obj])"

text \<open>A \<open>Graph\<close> object: \<open>this.nodes\<close> is assigned once, by the field initialiser, and
  \<open>this.isDirected\<close> once, by the constructor.\<close>

record GraphObject =
  nodesRef :: nat
  isDirectedFlag :: bool

definition newGraph_store :: "bool \<Rightarrow> store \<Rightarrow> GraphObject \<times> store" where
  "newGraph_store d h =
     (let (a, h1) = allocate (ArrayObject []) h in (\<lparr>nodesRef = a, isDirectedFlag = d\<rparr>, h1))"

text \<open>\<open>Math.abs\<close> and the unary minus; \<open>null\<close> converts to 0.\<close>

fun absJS :: "jsNumber \<Rightarrow> jsNumber" where
  "absJS (Num x) = Num \<bar>x\<bar>"
| "absJS NaN = NaN"
| "absJS PosInfinity = PosInfinity"
| "absJS NegInfinity = PosInfinity"
| "absJS Null = Num 0"

fun negateJS :: "jsNumber \<Rightarrow> jsNumber" where
  "negateJS (Num x) = Num (- x)"
| "negateJS NaN = NaN"
| "negateJS PosInfinity = NegInfinity"
| "negateJS NegInfinity = PosInfinity"
| "negateJS Null = Num 0"

text \<open>\<open>this.nodes[nodeId].edges\<close>: the address of the array and its elements; \<open>None\<close> when
  \<open>this.nodes[nodeId]\<close> is \<open>undefined\<close>, where the property read throws.\<close>

definition edgesOf :: "GraphObject \<Rightarrow> store \<Rightarrow> nat \<Rightarrow> (nat \<times> nat list) option" where
  "edgesOf g h nodeId =
     (case load h (nodesRef g) of
        Some (ArrayObject vs) \<Rightarrow>
          if nodeId < length vs then
            (case load h (vs ! nodeId) of
               Some (VertexObject w er) \<Rightarrow>
                 (case load h er of
                    Some (ArrayObject es) \<Rightarrow> Some (er, es)
                  | _ \<Rightarrow> None)
             | _ \<Rightarrow> None)
          else None
      | _ \<Rightarrow> None)"

definition targetOf :: "store \<Rightarrow> nat \<Rightarrow> nat option" where
  "targetOf h e = (case load h e of Some (EdgeObject w t) \<Rightarrow> Some t | _ \<Rightarrow> None)"

definition addNode_store :: "GraphObject \<Rightarrow> jsNumber \<Rightarrow> store \<Rightarrow> store outcome" where
  "addNode_store g nodeWeight h =
     (case load h (nodesRef g) of
        Some (ArrayObject vs) \<Rightarrow>
          let (er, h1) = allocate (ArrayObject []) h;
              (v, h2) = allocate (VertexObject nodeWeight er) h1
          in (None, h2[nodesRef g := ArrayObject (vs @ [v])])
      | _ \<Rightarrow> (Some TypeError, h))"

text \<open>\<open>this.nodes[nodeId].edges.push({ weight: edgeWeight, targetNode: targetId })\<close>\<close>

definition pushEdge :: "GraphObject \<Rightarrow> nat \<Rightarrow> jsNumber \<Rightarrow> nat \<Rightarrow> store \<Rightarrow> store outcome" where
  "pushEdge g nodeId edgeWeight targetId h =
     (case edgesOf g h nodeId of
        None \<Rightarrow> (Some TypeError, h)
      | Some (er, es) \<Rightarrow>
          let (e, h1) = allocate (EdgeObject edgeWeight targetId) h
          in (None, h1[er := ArrayObject (es @ [e])]))"

definition addEdge_store :: "GraphObject \<Rightarrow> nat \<Rightarrow> nat \<Rightarrow> jsNumber \<Rightarrow> store \<Rightarrow> store outcome" where
  "addEdge_store g sourceId targetId edgeWeight h =
     (case pushEdge g sourceId edgeWeight targetId h of
        (Some e, h1) \<Rightarrow> (Some e, h1)
      | (None, h1) \<Rightarrow>
          if isDirectedFlag g then (None, h1) else pushEdge g targetId edgeWeight sourceId h1)"

text \<open>
  \<open>removeNode\<close>. The callback of the inner \<open>forEach\<close>, at index \<open>i\<close> of the array at \<open>er\<close>:
  the loop skips an index that is no longer in the array; \<open>node.edges\<close> is the array the
  loop runs on, at \<open>er\<close>; \<open>edge.targetNode--\<close> overwrites the edge object.
\<close>

definition removeNodeVisit_store :: "nat \<Rightarrow> nat \<Rightarrow> nat \<Rightarrow> store \<Rightarrow> store outcome" where
  "removeNodeVisit_store nodeId er i h =
     (case load h er of
        Some (ArrayObject es) \<Rightarrow>
          if i < length es then
            (case load h (es ! i) of
               Some (EdgeObject w t) \<Rightarrow>
                 let h1 = (if t = nodeId then h[er := ArrayObject (spliceOne es i)] else h)
                 in if nodeId < t then (None, h1[es ! i := EdgeObject w (t - 1)]) else (None, h1)
             | _ \<Rightarrow> (Some TypeError, h))
          else (None, h)
      | _ \<Rightarrow> (Some TypeError, h))"

definition removeNodeEdges_store :: "nat \<Rightarrow> nat \<Rightarrow> store \<Rightarrow> store outcome" where
  "removeNodeEdges_store nodeId v h =
     (case load h v of
        Some (VertexObject w er) \<Rightarrow>
          (case load h er of
             Some (ArrayObject es) \<Rightarrow> forEachJS (removeNodeVisit_store nodeId er) [0..<length es] h
           | _ \<Rightarrow> (Some TypeError, h))
      | _ \<Rightarrow> (Some TypeError, h))"

definition removeNode_store :: "GraphObject \<Rightarrow> nat \<Rightarrow> store \<Rightarrow> store outcome" where
  "removeNode_store g nodeId h =
     (case load h (nodesRef g) of
        Some (ArrayObject vs) \<Rightarrow>
          forEachJS (removeNodeEdges_store nodeId) (spliceOne vs nodeId)
            (h[nodesRef g := ArrayObject (spliceOne vs nodeId)])
      | _ \<Rightarrow> (Some TypeError, h))"

text \<open>\<open>es.splice(es.findIndex(edge => edge.targetNode === targetId), 1)\<close> on
  \<open>this.nodes[nodeId].edges\<close>\<close>

definition spliceEdge :: "GraphObject \<Rightarrow> nat \<Rightarrow> nat \<Rightarrow> store \<Rightarrow> store outcome" where
  "spliceEdge g nodeId targetId h =
     (case edgesOf g h nodeId of
        None \<Rightarrow> (Some TypeError, h)
      | Some (er, es) \<Rightarrow>
          (None, h[er := ArrayObject
                    (spliceOneInt es (findIndexJS (\<lambda>e. targetOf h e = Some targetId) es))]))"

definition removeEdge_store :: "GraphObject \<Rightarrow> nat \<Rightarrow> nat \<Rightarrow> store \<Rightarrow> store outcome" where
  "removeEdge_store g sourceId targetId h =
     (case spliceEdge g sourceId targetId h of
        (Some e, h1) \<Rightarrow> (Some e, h1)
      | (None, h1) \<Rightarrow>
          if isDirectedFlag g then (None, h1) else spliceEdge g targetId sourceId h1)"

definition setNodeWeight_store :: "GraphObject \<Rightarrow> nat \<Rightarrow> jsNumber \<Rightarrow> store \<Rightarrow> store outcome" where
  "setNodeWeight_store g nodeId w h =
     (case load h (nodesRef g) of
        Some (ArrayObject vs) \<Rightarrow>
          if nodeId < length vs then
            (case load h (vs ! nodeId) of
               Some (VertexObject w0 er) \<Rightarrow> (None, h[vs ! nodeId := VertexObject w er])
             | _ \<Rightarrow> (Some TypeError, h))
          else (Some TypeError, h)
      | _ \<Rightarrow> (Some TypeError, h))"

text \<open>\<open>const edge = this.nodes[nodeId].edges.find(edge => edge.targetNode === targetId);
  if (edge) { edge.weight = weight }\<close>. The edge found has the target \<open>targetId\<close>.\<close>

definition setFirstEdgeWeight_store ::
  "GraphObject \<Rightarrow> nat \<Rightarrow> nat \<Rightarrow> jsNumber \<Rightarrow> store \<Rightarrow> store outcome" where
  "setFirstEdgeWeight_store g nodeId targetId w h =
     (case edgesOf g h nodeId of
        None \<Rightarrow> (Some TypeError, h)
      | Some (er, es) \<Rightarrow>
          (case find (\<lambda>e. targetOf h e = Some targetId) es of
             None \<Rightarrow> (None, h)
           | Some e \<Rightarrow> (None, h[e := EdgeObject w targetId])))"

definition setEdgeWeight_store ::
  "GraphObject \<Rightarrow> nat \<Rightarrow> nat \<Rightarrow> jsNumber \<Rightarrow> store \<Rightarrow> store outcome" where
  "setEdgeWeight_store g sourceId targetId w h =
     (case setFirstEdgeWeight_store g sourceId targetId w h of
        (Some e, h1) \<Rightarrow> (Some e, h1)
      | (None, h1) \<Rightarrow>
          if isDirectedFlag g then (None, h1)
          else setFirstEdgeWeight_store g targetId sourceId w h1)"

text \<open>The callback of the inner \<open>forEach\<close> of \<open>setRandomEdgeWeightSigns\<close>, at the edge
  object at address \<open>e\<close>.\<close>

definition setRandomSign_store ::
  "GraphObject \<Rightarrow> real \<Rightarrow> nat \<Rightarrow> nat \<Rightarrow> store \<times> rng \<Rightarrow> (store \<times> rng) outcome" where
  "setRandomSign_store g p sourceId e s =
     (case load (fst s) e of
        Some (EdgeObject w t) \<Rightarrow>
          let (x, r) = random (snd s);
              (thrown, h1) = setEdgeWeight_store g sourceId t
                               (if x < p then absJS w else negateJS (absJS w)) (fst s)
          in (thrown, (h1, r))
      | _ \<Rightarrow> (Some TypeError, s))"

definition setRandomSigns_store ::
  "GraphObject \<Rightarrow> real \<Rightarrow> nat list \<Rightarrow> nat \<Rightarrow> store \<times> rng \<Rightarrow> (store \<times> rng) outcome" where
  "setRandomSigns_store g p vs sourceId s =
     (case load (fst s) (vs ! sourceId) of
        Some (VertexObject w er) \<Rightarrow>
          (case load (fst s) er of
             Some (ArrayObject es) \<Rightarrow> forEachJS (setRandomSign_store g p sourceId) es s
           | _ \<Rightarrow> (Some TypeError, s))
      | _ \<Rightarrow> (Some TypeError, s))"

definition setRandomEdgeWeightSigns_store ::
  "GraphObject \<Rightarrow> real \<Rightarrow> store \<times> rng \<Rightarrow> (store \<times> rng) outcome" where
  "setRandomEdgeWeightSigns_store g p s =
     (case load (fst s) (nodesRef g) of
        Some (ArrayObject vs) \<Rightarrow> forEachJS (setRandomSigns_store g p vs) [0..<length vs] s
      | _ \<Rightarrow> (Some TypeError, s))"

subsection \<open>Reading a vertex array\<close>

text \<open>What can be read through the address of a \<open>Vertex[]\<close>: for every vertex its weight
  and, for every edge, the weight and the target. \<open>None\<close> when an address does not hold the
  kind of object the type says.\<close>

type_synonym edgeValue = "jsNumber \<times> nat"
type_synonym vertexValue = "jsNumber \<times> edgeValue list"

definition readArray :: "(store \<Rightarrow> nat \<Rightarrow> 'a option) \<Rightarrow> store \<Rightarrow> nat \<Rightarrow> 'a list option" where
  "readArray f h a =
     (case load h a of Some (ArrayObject xs) \<Rightarrow> those (map (f h) xs) | _ \<Rightarrow> None)"

definition readEdge :: "store \<Rightarrow> nat \<Rightarrow> edgeValue option" where
  "readEdge h e = (case load h e of Some (EdgeObject w t) \<Rightarrow> Some (w, t) | _ \<Rightarrow> None)"

definition readVertex :: "store \<Rightarrow> nat \<Rightarrow> vertexValue option" where
  "readVertex h v =
     (case load h v of
        Some (VertexObject w er) \<Rightarrow> map_option (Pair w) (readArray readEdge h er)
      | _ \<Rightarrow> None)"

definition readNodes :: "store \<Rightarrow> nat \<Rightarrow> vertexValue list option" where
  "readNodes h a = readArray readVertex h a"

subsection \<open>deepCopyNodes\<close>

text \<open>
  \<open>JSON.stringify(this.nodes)\<close> writes what can be read through \<open>this.nodes\<close>, a number
  that is not finite as \<open>null\<close>; node ids are array indices and are written as they are.
  \<open>JSON.parse\<close> builds a new object for every object and every array of the text.
\<close>

fun stringifyNumber :: "jsNumber \<Rightarrow> jsNumber" where
  "stringifyNumber (Num x) = Num x"
| "stringifyNumber NaN = Null"
| "stringifyNumber PosInfinity = Null"
| "stringifyNumber NegInfinity = Null"
| "stringifyNumber Null = Null"

definition stringifyEdge :: "edgeValue \<Rightarrow> edgeValue" where
  "stringifyEdge e = (stringifyNumber (fst e), snd e)"

definition stringifyVertex :: "vertexValue \<Rightarrow> vertexValue" where
  "stringifyVertex v = (stringifyNumber (fst v), map stringifyEdge (snd v))"

fun parseAll :: "('a \<Rightarrow> store \<Rightarrow> nat \<times> store) \<Rightarrow> 'a list \<Rightarrow> store \<Rightarrow> nat list \<times> store" where
  "parseAll f [] h = ([], h)"
| "parseAll f (x # xs) h =
     (let (a, h1) = f x h; (as, h2) = parseAll f xs h1 in (a # as, h2))"

definition parseArray :: "('a \<Rightarrow> store \<Rightarrow> nat \<times> store) \<Rightarrow> 'a list \<Rightarrow> store \<Rightarrow> nat \<times> store" where
  "parseArray f xs h = (let (as, h1) = parseAll f xs h in allocate (ArrayObject as) h1)"

definition parseEdge :: "edgeValue \<Rightarrow> store \<Rightarrow> nat \<times> store" where
  "parseEdge e h = allocate (EdgeObject (fst e) (snd e)) h"

definition parseVertex :: "vertexValue \<Rightarrow> store \<Rightarrow> nat \<times> store" where
  "parseVertex v h =
     (let (er, h1) = parseArray parseEdge (snd v) h in allocate (VertexObject (fst v) er) h1)"

definition deepCopyNodes_store :: "GraphObject \<Rightarrow> store \<Rightarrow> error + nat \<times> store" where
  "deepCopyNodes_store g h =
     (case readNodes h (nodesRef g) of
        None \<Rightarrow> Inl TypeError
      | Some vs \<Rightarrow> Inr (parseArray parseVertex (map stringifyVertex vs) h))"

subsection \<open>The mutations of a graph\<close>

datatype mutation =
    AddNode jsNumber
  | AddEdge nat nat jsNumber
  | RemoveNode nat
  | RemoveEdge nat nat
  | SetNodeWeight nat jsNumber
  | SetEdgeWeight nat nat jsNumber
  | SetRandomEdgeWeightSigns real

fun mutate :: "GraphObject \<Rightarrow> mutation \<Rightarrow> store \<times> rng \<Rightarrow> (store \<times> rng) outcome" where
  "mutate g (AddNode w) s = (let (thrown, h) = addNode_store g w (fst s) in (thrown, (h, snd s)))"
| "mutate g (AddEdge i j w) s = (let (thrown, h) = addEdge_store g i j w (fst s) in (thrown, (h, snd s)))"
| "mutate g (RemoveNode i) s = (let (thrown, h) = removeNode_store g i (fst s) in (thrown, (h, snd s)))"
| "mutate g (RemoveEdge i j) s = (let (thrown, h) = removeEdge_store g i j (fst s) in (thrown, (h, snd s)))"
| "mutate g (SetNodeWeight i w) s = (let (thrown, h) = setNodeWeight_store g i w (fst s) in (thrown, (h, snd s)))"
| "mutate g (SetEdgeWeight i j w) s = (let (thrown, h) = setEdgeWeight_store g i j w (fst s) in (thrown, (h, snd s)))"
| "mutate g (SetRandomEdgeWeightSigns p) s = setRandomEdgeWeightSigns_store g p s"

text \<open>Any number of mutations, one after the other; one that throws leaves the store as it
  was at the throw, and the next one runs on that store.\<close>

definition mutateAll :: "GraphObject \<Rightarrow> mutation list \<Rightarrow> store \<times> rng \<Rightarrow> store \<times> rng" where
  "mutateAll g ms s = fold (\<lambda>m s'. snd (mutate g m s')) ms s"

subsection \<open>A copy can be read back\<close>

lemma load_append: "a < length h \<Longrightarrow> load (h @ ext) a = load h a"
  by (simp add: load_def nth_append)

lemma those_map_Some: "those (map Some xs) = Some xs"
  by (induction xs) simp_all

text \<open>\<open>h'\<close> holds, at the addresses from \<open>lo\<close> up to \<open>hi\<close>, the objects that \<open>h\<close> holds there.\<close>

definition agrees :: "nat \<Rightarrow> nat \<Rightarrow> store \<Rightarrow> store \<Rightarrow> bool" where
  "agrees lo hi h h' = (hi \<le> length h' \<and> (\<forall>a. lo \<le> a \<and> a < hi \<longrightarrow> h' ! a = h ! a))"

text \<open>\<open>f\<close> builds new objects only, and what it built reads back as the value it was given, in
  every store that still holds these objects.\<close>

definition builds :: "('a \<Rightarrow> store \<Rightarrow> nat \<times> store) \<Rightarrow> (store \<Rightarrow> nat \<Rightarrow> 'a option) \<Rightarrow> bool" where
  "builds f rd =
     (\<forall>x h. (\<exists>ext. snd (f x h) = h @ ext)
            \<and> (\<forall>h'. agrees (length h) (length (snd (f x h))) (snd (f x h)) h'
                   \<longrightarrow> rd h' (fst (f x h)) = Some x))"

lemma agrees_split:
  assumes "agrees lo hi (h @ ext1 @ ext2) h'" and "lo = length h" and "hi = length (h @ ext1 @ ext2)"
  shows "agrees lo (length (h @ ext1)) (h @ ext1) h'"
    and "agrees (length (h @ ext1)) hi ((h @ ext1) @ ext2) h'"
  using assms by (auto simp: agrees_def nth_append)

lemma parseAll_builds:
  assumes f: "builds f rd"
  shows "(\<exists>ext. snd (parseAll f xs h) = h @ ext)
         \<and> (\<forall>h'. agrees (length h) (length (snd (parseAll f xs h))) (snd (parseAll f xs h)) h'
                \<longrightarrow> map (rd h') (fst (parseAll f xs h)) = map Some xs)"
proof (induction xs arbitrary: h)
  case Nil
  show ?case by simp
next
  case (Cons x xs)
  obtain a h1 where fx: "f x h = (a, h1)" by (cases "f x h")
  obtain as h2 where rest: "parseAll f xs h1 = (as, h2)" by (cases "parseAll f xs h1")
  from f fx obtain ext1 where h1: "h1 = h @ ext1"
    and rd1: "\<And>h'. agrees (length h) (length h1) h1 h' \<Longrightarrow> rd h' a = Some x"
    unfolding builds_def by (metis fst_conv snd_conv)
  from Cons.IH [of h1] rest obtain ext2 where h2: "h2 = h1 @ ext2"
    and rd2: "\<And>h'. agrees (length h1) (length h2) h2 h' \<Longrightarrow> map (rd h') as = map Some xs"
    by auto
  have all: "parseAll f (x # xs) h = (a # as, h2)" using fx rest by simp
  have "map (rd h') (a # as) = map Some (x # xs)"
    if "agrees (length h) (length h2) h2 h'" for h'
  proof -
    from that h1 h2 have ag: "agrees (length h) (length (h @ ext1 @ ext2)) (h @ ext1 @ ext2) h'" by simp
    from agrees_split [OF ag refl refl] h1 h2
    have "agrees (length h) (length h1) h1 h'" and "agrees (length h1) (length h2) h2 h'" by simp_all
    with rd1 rd2 show ?thesis by simp
  qed
  with all h1 h2 show ?case by simp
qed

lemma parseArray_builds:
  assumes f: "builds f rd"
  shows "builds (parseArray f) (readArray rd)"
  unfolding builds_def
proof (intro allI)
  fix xs h
  obtain as h1 where p: "parseAll f xs h = (as, h1)" by (cases "parseAll f xs h")
  from parseAll_builds [OF f, of xs h] p obtain ext where h1: "h1 = h @ ext"
    and rd: "\<And>h'. agrees (length h) (length h1) h1 h' \<Longrightarrow> map (rd h') as = map Some xs"
    by auto
  have res: "parseArray f xs h = (length h1, h1 @ [ArrayObject as])"
    using p by (simp add: parseArray_def allocate_def)
  have "readArray rd h' (length h1) = Some xs"
    if ag: "agrees (length h) (Suc (length h1)) (h1 @ [ArrayObject as]) h'" for h'
  proof -
    from ag h1 have "agrees (length h) (length h1) h1 h'"
      by (auto simp: agrees_def nth_append)
    then have "map (rd h') as = map Some xs" by (rule rd)
    moreover from ag h1 have "load h' (length h1) = Some (ArrayObject as)"
      by (auto simp: agrees_def load_def)
    ultimately show ?thesis by (simp add: readArray_def those_map_Some)
  qed
  with res h1
  show "(\<exists>ext. snd (parseArray f xs h) = h @ ext)
        \<and> (\<forall>h'. agrees (length h) (length (snd (parseArray f xs h))) (snd (parseArray f xs h)) h'
               \<longrightarrow> readArray rd h' (fst (parseArray f xs h)) = Some xs)"
    by simp
qed

lemma parseEdge_builds: "builds parseEdge readEdge"
  by (auto simp: builds_def parseEdge_def allocate_def agrees_def readEdge_def load_def)

lemma parseVertex_builds: "builds parseVertex readVertex"
  unfolding builds_def
proof (intro allI)
  fix v :: vertexValue and h
  obtain er h1 where p: "parseArray parseEdge (snd v) h = (er, h1)"
    by (cases "parseArray parseEdge (snd v) h")
  from parseArray_builds [OF parseEdge_builds] p obtain ext where h1: "h1 = h @ ext"
    and rd: "\<And>h'. agrees (length h) (length h1) h1 h' \<Longrightarrow> readArray readEdge h' er = Some (snd v)"
    unfolding builds_def by (metis fst_conv snd_conv)
  have res: "parseVertex v h = (length h1, h1 @ [VertexObject (fst v) er])"
    using p by (simp add: parseVertex_def allocate_def)
  have "readVertex h' (length h1) = Some v"
    if ag: "agrees (length h) (Suc (length h1)) (h1 @ [VertexObject (fst v) er]) h'" for h'
  proof -
    from ag h1 have "agrees (length h) (length h1) h1 h'"
      by (auto simp: agrees_def nth_append)
    then have "readArray readEdge h' er = Some (snd v)" by (rule rd)
    moreover from ag h1 have "load h' (length h1) = Some (VertexObject (fst v) er)"
      by (auto simp: agrees_def load_def)
    ultimately show ?thesis by (simp add: readVertex_def)
  qed
  with res h1
  show "(\<exists>ext. snd (parseVertex v h) = h @ ext)
        \<and> (\<forall>h'. agrees (length h) (length (snd (parseVertex v h))) (snd (parseVertex v h)) h'
               \<longrightarrow> readVertex h' (fst (parseVertex v h)) = Some v)"
    by simp
qed

lemma parseNodes_builds: "builds (parseArray parseVertex) readNodes"
  using parseArray_builds [OF parseVertex_builds] by (simp add: builds_def readNodes_def)

text \<open>Reading does not depend on what was allocated later.\<close>

lemma readArray_append:
  assumes "\<And>x a. rd h a = Some x \<Longrightarrow> rd (h @ ext) a = Some x" and "readArray rd h a = Some xs"
  shows "readArray rd (h @ ext) a = Some xs"
proof -
  from assms(2) obtain as where l: "load h a = Some (ArrayObject as)"
    and t: "those (map (rd h) as) = Some xs"
    by (auto simp: readArray_def split: option.splits object.splits)
  have "those (map (rd h) as) = Some xs \<Longrightarrow> those (map (rd (h @ ext)) as) = Some xs" for as xs
  proof (induction as arbitrary: xs)
    case Nil
    then show ?case by simp
  next
    case (Cons b bs)
    then show ?case using assms(1) [of b]
      by (auto split: option.splits)
  qed
  with t have "those (map (rd (h @ ext)) as) = Some xs" by simp
  moreover from l have "load (h @ ext) a = Some (ArrayObject as)"
    by (auto simp: load_def nth_append split: if_splits)
  ultimately show ?thesis by (simp add: readArray_def)
qed

lemma readEdge_append: "readEdge h a = Some x \<Longrightarrow> readEdge (h @ ext) a = Some x"
  by (auto simp: readEdge_def load_def nth_append split: if_splits object.splits)

lemma readVertex_append: "readVertex h a = Some x \<Longrightarrow> readVertex (h @ ext) a = Some x"
  using readArray_append [where rd = readEdge, OF readEdge_append]
  by (auto simp: readVertex_def load_def nth_append split: if_splits object.splits) 

lemma readNodes_append: "readNodes h a = Some x \<Longrightarrow> readNodes (h @ ext) a = Some x"
  unfolding readNodes_def
  using readArray_append [where rd = readVertex, OF readVertex_append] by blast

subsection \<open>A mutation stays away from a copy\<close>

fun references :: "object \<Rightarrow> nat list" where
  "references (ArrayObject xs) = xs"
| "references (VertexObject w er) = [er]"
| "references (EdgeObject w t) = []"

text \<open>No object refers to an address that holds nothing.\<close>

definition closed :: "store \<Rightarrow> bool" where
  "closed h = (\<forall>obj \<in> set h. \<forall>a \<in> set (references obj). a < length h)"

definition outside :: "nat \<Rightarrow> nat \<Rightarrow> nat \<Rightarrow> bool" where
  "outside lo hi a = (a < lo \<or> hi \<le> a)"

text \<open>The addresses from \<open>lo\<close> up to \<open>hi\<close> hold objects, and neither the graph nor an object
  at another address refers to one of them.\<close>

definition apart :: "nat \<Rightarrow> nat \<Rightarrow> GraphObject \<Rightarrow> store \<Rightarrow> bool" where
  "apart lo hi g h =
     (hi \<le> length h \<and> outside lo hi (nodesRef g)
      \<and> (\<forall>a < length h. outside lo hi a \<longrightarrow> (\<forall>b \<in> set (references (h ! a)). outside lo hi b)))"

definition kept :: "nat \<Rightarrow> nat \<Rightarrow> GraphObject \<Rightarrow> store \<Rightarrow> store \<Rightarrow> bool" where
  "kept lo hi g h h' = (apart lo hi g h' \<and> (\<forall>a. lo \<le> a \<and> a < hi \<longrightarrow> h' ! a = h ! a))"

lemma kept_refl: "apart lo hi g h \<Longrightarrow> kept lo hi g h h"
  by (simp add: kept_def)

lemma kept_trans: "kept lo hi g h h1 \<Longrightarrow> kept lo hi g h1 h2 \<Longrightarrow> kept lo hi g h h2"
  by (simp add: kept_def)

lemma kept_apart: "kept lo hi g h h' \<Longrightarrow> apart lo hi g h'"
  by (simp add: kept_def)

lemma apart_load:
  assumes "apart lo hi g h" and "outside lo hi a" and "load h a = Some obj"
  shows "\<forall>b \<in> set (references obj). outside lo hi b"
  using assms by (auto simp: apart_def load_def split: if_splits)

lemma apart_update:
  assumes "apart lo hi g h" and "outside lo hi a" and "\<forall>b \<in> set (references obj). outside lo hi b"
  shows "kept lo hi g h (h[a := obj])"
  unfolding kept_def apart_def
proof (intro conjI allI impI)
  show "hi \<le> length (h[a := obj])" using assms(1) by (simp add: apart_def)
  show "outside lo hi (nodesRef g)" using assms(1) by (simp add: apart_def)
next
  fix c assume "c < length (h[a := obj])" and "outside lo hi c"
  then show "\<forall>b \<in> set (references (h[a := obj] ! c)). outside lo hi b"
    using assms by (cases "c = a") (auto simp: apart_def)
next
  fix c assume "lo \<le> c \<and> c < hi"
  with assms(2) have "c \<noteq> a" by (auto simp: outside_def)
  then show "h[a := obj] ! c = h ! c" by simp
qed

lemma apart_allocate:
  assumes "apart lo hi g h" and "\<forall>b \<in> set (references obj). outside lo hi b"
  shows "kept lo hi g h (h @ [obj])" and "outside lo hi (length h)"
proof -
  from assms(1) show "outside lo hi (length h)" by (simp add: apart_def outside_def)
  show "kept lo hi g h (h @ [obj])"
    unfolding kept_def apart_def
  proof (intro conjI allI impI)
    show "hi \<le> length (h @ [obj])" using assms(1) by (simp add: apart_def)
    show "outside lo hi (nodesRef g)" using assms(1) by (simp add: apart_def)
  next
    fix c assume "c < length (h @ [obj])" and "outside lo hi c"
    then show "\<forall>b \<in> set (references ((h @ [obj]) ! c)). outside lo hi b"
    proof (cases "c = length h")
      case True
      with assms(2) show ?thesis by simp
    next
      case False
      with \<open>c < length (h @ [obj])\<close> have "c < length h" by simp
      with assms(1) \<open>outside lo hi c\<close> show ?thesis by (simp add: apart_def nth_append)
    qed
  next
    fix c assume "lo \<le> c \<and> c < hi"
    with assms(1) have "c < length h" by (simp add: apart_def)
    then show "(h @ [obj]) ! c = h ! c" by (simp add: nth_append)
  qed
qed

lemma apart_nodes:
  assumes "apart lo hi g h" and "load h (nodesRef g) = Some (ArrayObject vs)"
  shows "\<forall>v \<in> set vs. outside lo hi v"
  using apart_load [OF assms(1) _ assms(2)] assms(1) by (simp add: apart_def)

lemma apart_edgesOf:
  assumes "apart lo hi g h" and "edgesOf g h nodeId = Some (er, es)"
  shows "outside lo hi er" and "\<forall>e \<in> set es. outside lo hi e"
proof -
  from assms(2) obtain vs w where vs: "load h (nodesRef g) = Some (ArrayObject vs)"
    and n: "nodeId < length vs" and v: "load h (vs ! nodeId) = Some (VertexObject w er)"
    and e: "load h er = Some (ArrayObject es)"
    by (auto simp: edgesOf_def split: option.splits object.splits if_splits)
  from apart_nodes [OF assms(1) vs] n have ov: "outside lo hi (vs ! nodeId)" by simp
  from apart_load [OF assms(1) ov v] show oe: "outside lo hi er" by simp
  from apart_load [OF assms(1) oe e] show "\<forall>e \<in> set es. outside lo hi e" by simp
qed

lemma addNode_store_kept:
  assumes "apart lo hi g h"
  shows "kept lo hi g h (snd (addNode_store g nodeWeight h))"
proof (cases "\<exists>vs. load h (nodesRef g) = Some (ArrayObject vs)")
  case False
  then have "snd (addNode_store g nodeWeight h) = h"
    by (auto simp: addNode_store_def split: option.splits object.splits)
  with assms show ?thesis by (simp add: kept_refl)
next
  case True
  then obtain vs where vs: "load h (nodesRef g) = Some (ArrayObject vs)" by blast
  let ?h1 = "h @ [ArrayObject []]"
  let ?h2 = "?h1 @ [VertexObject nodeWeight (length h)]"
  from apart_allocate [OF assms, of "ArrayObject []"]
  have k1: "kept lo hi g h ?h1" and o1: "outside lo hi (length h)" by simp_all
  from apart_allocate [OF kept_apart [OF k1], of "VertexObject nodeWeight (length h)"] o1
  have k2: "kept lo hi g ?h1 ?h2" and o2: "outside lo hi (length ?h1)" by simp_all
  from assms have og: "outside lo hi (nodesRef g)" by (simp add: apart_def)
  from apart_nodes [OF assms vs] o2
  have "\<forall>b \<in> set (references (ArrayObject (vs @ [length ?h1]))). outside lo hi b" by auto
  from apart_update [OF kept_apart [OF k2] og this]
  have "kept lo hi g ?h2 (?h2[nodesRef g := ArrayObject (vs @ [length ?h1])])" .
  with k1 k2 have "kept lo hi g h (?h2[nodesRef g := ArrayObject (vs @ [length ?h1])])"
    by (blast intro: kept_trans)
  moreover from vs
  have "snd (addNode_store g nodeWeight h) = ?h2[nodesRef g := ArrayObject (vs @ [length ?h1])]"
    by (simp add: addNode_store_def allocate_def)
  ultimately show ?thesis by simp
qed

lemma pushEdge_kept:
  assumes "apart lo hi g h"
  shows "kept lo hi g h (snd (pushEdge g nodeId edgeWeight targetId h))"
proof (cases "edgesOf g h nodeId")
  case None
  then show ?thesis using assms by (simp add: pushEdge_def kept_refl)
next
  case (Some p)
  obtain er es where p: "p = (er, es)" by (cases p)
  from apart_edgesOf [OF assms] Some p
  have oer: "outside lo hi er" and oes: "\<forall>e \<in> set es. outside lo hi e" by simp_all
  let ?h1 = "h @ [EdgeObject edgeWeight targetId]"
  from apart_allocate [OF assms, of "EdgeObject edgeWeight targetId"]
  have k1: "kept lo hi g h ?h1" and o1: "outside lo hi (length h)" by simp_all
  from oes o1 have "\<forall>b \<in> set (references (ArrayObject (es @ [length h]))). outside lo hi b" by auto
  from apart_update [OF kept_apart [OF k1] oer this] k1
  have "kept lo hi g h (?h1[er := ArrayObject (es @ [length h])])" by (blast intro: kept_trans)
  with Some p show ?thesis by (simp add: pushEdge_def allocate_def)
qed

lemma twice_kept:
  assumes f: "\<And>a b h. apart lo hi g h \<Longrightarrow> kept lo hi g h (snd (f a b h))"
    and op: "\<And>h. op h = (case f a b h of (Some e, h1) \<Rightarrow> (Some e, h1)
                          | (None, h1) \<Rightarrow> if d then (None, h1) else f b a h1)"
    and h: "apart lo hi g h"
  shows "kept lo hi g h (snd (op h))"
proof -
  obtain thrown h1 where r: "f a b h = (thrown, h1)" by (cases "f a b h")
  with f [OF h, of a b] have k1: "kept lo hi g h h1" by simp
  from f [OF kept_apart [OF k1], of b a] k1 have "kept lo hi g h (snd (f b a h1))"
    by (blast intro: kept_trans)
  with k1 r show ?thesis by (cases thrown) (simp_all add: op)
qed

lemma addEdge_store_kept:
  assumes "apart lo hi g h"
  shows "kept lo hi g h (snd (addEdge_store g sourceId targetId edgeWeight h))"
  by (rule twice_kept [where f = "\<lambda>a b. pushEdge g a edgeWeight b" and d = "isDirectedFlag g"
        and a = sourceId and b = targetId])
     (simp_all add: pushEdge_kept addEdge_store_def assms)

lemma set_spliceOne: "set (spliceOne xs i) \<subseteq> set xs"
  by (auto simp: spliceOne_def dest: in_set_takeD in_set_dropD)

lemma set_spliceOneInt: "set (spliceOneInt xs i) \<subseteq> set xs"
  using set_spliceOne [of xs] by (simp add: spliceOneInt_def)

lemma removeNodeVisit_store_kept:
  assumes "apart lo hi g h" and er: "outside lo hi er"
  shows "kept lo hi g h (snd (removeNodeVisit_store nodeId er i h))"
proof (cases "\<exists>es w t. load h er = Some (ArrayObject es) \<and> i < length es
                        \<and> load h (es ! i) = Some (EdgeObject w t)")
  case False
  then have "snd (removeNodeVisit_store nodeId er i h) = h"
    by (auto simp: removeNodeVisit_store_def split: option.splits object.splits)
  with assms show ?thesis by (simp add: kept_refl)
next
  case True
  then obtain es w t where es: "load h er = Some (ArrayObject es)" and i: "i < length es"
    and e: "load h (es ! i) = Some (EdgeObject w t)" by blast
  from apart_load [OF assms(1) er es] have oes: "\<forall>e \<in> set es. outside lo hi e" by simp
  with i have oe: "outside lo hi (es ! i)" by simp
  let ?h1 = "if t = nodeId then h[er := ArrayObject (spliceOne es i)] else h"
  from oes set_spliceOne [of es i]
  have "\<forall>b \<in> set (references (ArrayObject (spliceOne es i))). outside lo hi b" by auto
  from apart_update [OF assms(1) er this] assms(1)
  have k1: "kept lo hi g h ?h1" by (simp add: kept_refl)
  from apart_update [OF kept_apart [OF k1] oe, of "EdgeObject w (t - 1)"]
  have "kept lo hi g ?h1 (?h1[es ! i := EdgeObject w (t - 1)])" by simp
  with k1 have k2: "kept lo hi g h (?h1[es ! i := EdgeObject w (t - 1)])"
    by (rule kept_trans)
  have "snd (removeNodeVisit_store nodeId er i h)
        = (if nodeId < t then ?h1[es ! i := EdgeObject w (t - 1)] else ?h1)"
    using es i e by (simp add: removeNodeVisit_store_def Let_def)
  with k1 k2 show ?thesis by (cases "nodeId < t") (simp_all only: if_True if_False)
qed

text \<open>A loop whose callback stays away from the copy stays away from it.\<close>

lemma forEachJS_kept:
  assumes "\<And>x h'. x \<in> set xs \<Longrightarrow> apart lo hi g h' \<Longrightarrow> kept lo hi g h' (snd (f x h'))"
    and "apart lo hi g h"
  shows "kept lo hi g h (snd (forEachJS f xs h))"
proof (rule forEachJS_invariant [where I = "\<lambda>h'. kept lo hi g h h'"])
  fix x h' assume "x \<in> set xs" and k: "kept lo hi g h h'"
  with assms(1) [of x h'] show "kept lo hi g h (snd (f x h'))"
    by (blast intro: kept_trans kept_apart)
next
  from assms(2) show "kept lo hi g h h" by (rule kept_refl)
qed

lemma removeNodeEdges_store_kept:
  assumes "apart lo hi g h" and v: "outside lo hi v"
  shows "kept lo hi g h (snd (removeNodeEdges_store nodeId v h))"
proof (cases "\<exists>w er es. load h v = Some (VertexObject w er) \<and> load h er = Some (ArrayObject es)")
  case False
  then have "snd (removeNodeEdges_store nodeId v h) = h"
    by (auto simp: removeNodeEdges_store_def split: option.splits object.splits)
  with assms show ?thesis by (simp add: kept_refl)
next
  case True
  then obtain w er es where l: "load h v = Some (VertexObject w er)"
    and es: "load h er = Some (ArrayObject es)" by blast
  from apart_load [OF assms(1) v l] have er: "outside lo hi er" by simp
  have "kept lo hi g h (snd (forEachJS (removeNodeVisit_store nodeId er) [0..<length es] h))"
    by (rule forEachJS_kept) (simp_all add: removeNodeVisit_store_kept er assms(1))
  with l es show ?thesis by (simp add: removeNodeEdges_store_def)
qed

lemma removeNode_store_kept:
  assumes "apart lo hi g h"
  shows "kept lo hi g h (snd (removeNode_store g nodeId h))"
proof (cases "\<exists>vs. load h (nodesRef g) = Some (ArrayObject vs)")
  case False
  then have "snd (removeNode_store g nodeId h) = h"
    by (auto simp: removeNode_store_def split: option.splits object.splits)
  with assms show ?thesis by (simp add: kept_refl)
next
  case True
  then obtain vs where vs: "load h (nodesRef g) = Some (ArrayObject vs)" by blast
  from assms have og: "outside lo hi (nodesRef g)" by (simp add: apart_def)
  from apart_nodes [OF assms vs] set_spliceOne [of vs nodeId]
  have ovs: "\<forall>v \<in> set (spliceOne vs nodeId). outside lo hi v" by auto
  then have "\<forall>b \<in> set (references (ArrayObject (spliceOne vs nodeId))). outside lo hi b" by simp
  from apart_update [OF assms og this]
  have k1: "kept lo hi g h (h[nodesRef g := ArrayObject (spliceOne vs nodeId)])" .
  have "kept lo hi g (h[nodesRef g := ArrayObject (spliceOne vs nodeId)])
          (snd (forEachJS (removeNodeEdges_store nodeId) (spliceOne vs nodeId)
                  (h[nodesRef g := ArrayObject (spliceOne vs nodeId)])))"
    by (rule forEachJS_kept) (simp_all add: removeNodeEdges_store_kept ovs kept_apart [OF k1])
  with k1 have "kept lo hi g h
          (snd (forEachJS (removeNodeEdges_store nodeId) (spliceOne vs nodeId)
                  (h[nodesRef g := ArrayObject (spliceOne vs nodeId)])))"
    by (rule kept_trans)
  with vs show ?thesis by (simp add: removeNode_store_def)
qed

lemma spliceEdge_kept:
  assumes "apart lo hi g h"
  shows "kept lo hi g h (snd (spliceEdge g nodeId targetId h))"
proof (cases "edgesOf g h nodeId")
  case None
  then show ?thesis using assms by (simp add: spliceEdge_def kept_refl)
next
  case (Some p)
  obtain er es where p: "p = (er, es)" by (cases p)
  from apart_edgesOf [OF assms] Some p
  have oer: "outside lo hi er" and oes: "\<forall>e \<in> set es. outside lo hi e" by simp_all
  let ?es = "spliceOneInt es (findIndexJS (\<lambda>e. targetOf h e = Some targetId) es)"
  from oes set_spliceOneInt [of es] have "\<forall>b \<in> set (references (ArrayObject ?es)). outside lo hi b"
    by auto
  from apart_update [OF assms oer this] Some p show ?thesis by (simp add: spliceEdge_def)
qed

lemma removeEdge_store_kept:
  assumes "apart lo hi g h"
  shows "kept lo hi g h (snd (removeEdge_store g sourceId targetId h))"
  by (rule twice_kept [where f = "spliceEdge g" and d = "isDirectedFlag g"
        and a = sourceId and b = targetId])
     (simp_all add: spliceEdge_kept removeEdge_store_def assms)

lemma setNodeWeight_store_kept:
  assumes "apart lo hi g h"
  shows "kept lo hi g h (snd (setNodeWeight_store g nodeId w h))"
proof (cases "\<exists>vs w0 er. load h (nodesRef g) = Some (ArrayObject vs) \<and> nodeId < length vs
                          \<and> load h (vs ! nodeId) = Some (VertexObject w0 er)")
  case False
  then have "snd (setNodeWeight_store g nodeId w h) = h"
    by (auto simp: setNodeWeight_store_def split: option.splits object.splits)
  with assms show ?thesis by (simp add: kept_refl)
next
  case True
  then obtain vs w0 er where vs: "load h (nodesRef g) = Some (ArrayObject vs)"
    and n: "nodeId < length vs" and v: "load h (vs ! nodeId) = Some (VertexObject w0 er)" by blast
  from apart_nodes [OF assms vs] n have ov: "outside lo hi (vs ! nodeId)" by simp
  from apart_load [OF assms ov v]
  have "\<forall>b \<in> set (references (VertexObject w er)). outside lo hi b" by simp
  from apart_update [OF assms ov this] vs n v show ?thesis
    by (simp add: setNodeWeight_store_def)
qed

lemma setFirstEdgeWeight_store_kept:
  assumes "apart lo hi g h"
  shows "kept lo hi g h (snd (setFirstEdgeWeight_store g nodeId targetId w h))"
proof (cases "edgesOf g h nodeId")
  case None
  then show ?thesis using assms by (simp add: setFirstEdgeWeight_store_def kept_refl)
next
  case (Some p)
  obtain er es where p: "p = (er, es)" by (cases p)
  from apart_edgesOf [OF assms] Some p have oes: "\<forall>e \<in> set es. outside lo hi e" by simp
  show ?thesis
  proof (cases "find (\<lambda>e. targetOf h e = Some targetId) es")
    case None
    with Some p assms show ?thesis by (simp add: setFirstEdgeWeight_store_def kept_refl)
  next
    case (Some e)
    then have "e \<in> set es" by (auto simp: find_Some_iff)
    with oes have "outside lo hi e" by simp
    from apart_update [OF assms this, of "EdgeObject w targetId"] Some \<open>edgesOf g h nodeId = Some p\<close> p
    show ?thesis by (simp add: setFirstEdgeWeight_store_def)
  qed
qed

lemma setEdgeWeight_store_kept:
  assumes "apart lo hi g h"
  shows "kept lo hi g h (snd (setEdgeWeight_store g sourceId targetId w h))"
  by (rule twice_kept [where f = "\<lambda>a b. setFirstEdgeWeight_store g a b w" and d = "isDirectedFlag g"
        and a = sourceId and b = targetId])
     (simp_all add: setFirstEdgeWeight_store_kept setEdgeWeight_store_def assms)

lemma setRandomSign_store_kept:
  assumes "apart lo hi g (fst s)"
  shows "kept lo hi g (fst s) (fst (snd (setRandomSign_store g p sourceId e s)))"
proof (cases "\<exists>w t. load (fst s) e = Some (EdgeObject w t)")
  case False
  then have "snd (setRandomSign_store g p sourceId e s) = s"
    by (auto simp: setRandomSign_store_def split: option.splits object.splits)
  with assms show ?thesis by (simp add: kept_refl)
next
  case True
  then obtain w t where e: "load (fst s) e = Some (EdgeObject w t)" by blast
  let ?w = "if snd s 0 < p then absJS w else negateJS (absJS w)"
  from e have "fst (snd (setRandomSign_store g p sourceId e s))
               = snd (setEdgeWeight_store g sourceId t ?w (fst s))"
    by (simp add: setRandomSign_store_def random_def split_beta)
  with setEdgeWeight_store_kept [OF assms, of sourceId t ?w] show ?thesis by simp
qed

lemma forEachJS_kept_rng:
  fixes f :: "'a \<Rightarrow> store \<times> rng \<Rightarrow> (store \<times> rng) outcome"
  assumes "\<And>x s'. x \<in> set xs \<Longrightarrow> apart lo hi g (fst s') \<Longrightarrow> kept lo hi g (fst s') (fst (snd (f x s')))"
    and "apart lo hi g (fst s)"
  shows "kept lo hi g (fst s) (fst (snd (forEachJS f xs s)))"
proof (rule forEachJS_invariant [where I = "\<lambda>s' :: store \<times> rng. kept lo hi g (fst s) (fst s')"])
  fix x and s' :: "store \<times> rng" assume "x \<in> set xs" and k: "kept lo hi g (fst s) (fst s')"
  with assms(1) [of x s'] show "kept lo hi g (fst s) (fst (snd (f x s')))"
    by (blast intro: kept_trans kept_apart)
next
  from assms(2) show "kept lo hi g (fst s) (fst s)" by (rule kept_refl)
qed

lemma setRandomSigns_store_kept:
  assumes "apart lo hi g (fst s)"
  shows "kept lo hi g (fst s) (fst (snd (setRandomSigns_store g p vs sourceId s)))"
proof (cases "\<exists>w er es. load (fst s) (vs ! sourceId) = Some (VertexObject w er)
                        \<and> load (fst s) er = Some (ArrayObject es)")
  case False
  then have "snd (setRandomSigns_store g p vs sourceId s) = s"
    by (auto simp: setRandomSigns_store_def split: option.splits object.splits)
  with assms show ?thesis by (simp add: kept_refl)
next
  case True
  then obtain w er es where l: "load (fst s) (vs ! sourceId) = Some (VertexObject w er)"
    and es: "load (fst s) er = Some (ArrayObject es)" by blast
  have "kept lo hi g (fst s) (fst (snd (forEachJS (setRandomSign_store g p sourceId) es s)))"
    by (rule forEachJS_kept_rng) (simp_all add: setRandomSign_store_kept assms)
  with l es show ?thesis by (simp add: setRandomSigns_store_def)
qed

lemma setRandomEdgeWeightSigns_store_kept:
  assumes "apart lo hi g (fst s)"
  shows "kept lo hi g (fst s) (fst (snd (setRandomEdgeWeightSigns_store g p s)))"
proof (cases "\<exists>vs. load (fst s) (nodesRef g) = Some (ArrayObject vs)")
  case False
  then have "snd (setRandomEdgeWeightSigns_store g p s) = s"
    by (auto simp: setRandomEdgeWeightSigns_store_def split: option.splits object.splits)
  with assms show ?thesis by (simp add: kept_refl)
next
  case True
  then obtain vs where vs: "load (fst s) (nodesRef g) = Some (ArrayObject vs)" by blast
  have "kept lo hi g (fst s) (fst (snd (forEachJS (setRandomSigns_store g p vs) [0..<length vs] s)))"
    by (rule forEachJS_kept_rng) (simp_all add: setRandomSigns_store_kept assms)
  with vs show ?thesis by (simp add: setRandomEdgeWeightSigns_store_def)
qed

lemma mutate_kept:
  assumes "apart lo hi g (fst s)"
  shows "kept lo hi g (fst s) (fst (snd (mutate g m s)))"
proof (cases m)
  case (AddNode w)
  with addNode_store_kept [OF assms, of w] show ?thesis by (simp add: split_beta)
next
  case (AddEdge i j w)
  with addEdge_store_kept [OF assms, of i j w] show ?thesis by (simp add: split_beta)
next
  case (RemoveNode i)
  with removeNode_store_kept [OF assms, of i] show ?thesis by (simp add: split_beta)
next
  case (RemoveEdge i j)
  with removeEdge_store_kept [OF assms, of i j] show ?thesis by (simp add: split_beta)
next
  case (SetNodeWeight i w)
  with setNodeWeight_store_kept [OF assms, of i w] show ?thesis by (simp add: split_beta)
next
  case (SetEdgeWeight i j w)
  with setEdgeWeight_store_kept [OF assms, of i j w] show ?thesis by (simp add: split_beta)
next
  case (SetRandomEdgeWeightSigns p)
  with setRandomEdgeWeightSigns_store_kept [OF assms, of p] show ?thesis by simp
qed

lemma mutateAll_kept:
  assumes "apart lo hi g (fst s)"
  shows "kept lo hi g (fst s) (fst (mutateAll g ms s))"
  using assms
proof (induction ms arbitrary: s rule: rev_induct)
  case Nil
  then show ?case by (simp add: mutateAll_def kept_refl)
next
  case (snoc m ms)
  from snoc.IH [OF snoc.prems] have k: "kept lo hi g (fst s) (fst (mutateAll g ms s))" .
  from k mutate_kept [OF kept_apart [OF k], of m]
  have "kept lo hi g (fst s) (fst (snd (mutate g m (mutateAll g ms s))))" by (rule kept_trans)
  then show ?case by (simp add: mutateAll_def)
qed

subsection \<open>The copy and the graph\<close>

fun isFinite :: "jsNumber \<Rightarrow> bool" where
  "isFinite (Num x) = True"
| "isFinite NaN = False"
| "isFinite PosInfinity = False"
| "isFinite NegInfinity = False"
| "isFinite Null = False"

definition finiteWeights :: "vertexValue list \<Rightarrow> bool" where
  "finiteWeights vs = (\<forall>v \<in> set vs. isFinite (fst v) \<and> (\<forall>e \<in> set (snd v). isFinite (fst e)))"

lemma stringifyNumber_finite: "isFinite w \<Longrightarrow> stringifyNumber w = w"
  by (cases w) simp_all

lemma stringify_finiteWeights: "finiteWeights vs \<Longrightarrow> map stringifyVertex vs = vs"
proof -
  assume f: "finiteWeights vs"
  have "stringifyVertex v = v" if "v \<in> set vs" for v
  proof -
    from f that have w: "isFinite (fst v)" and es: "\<forall>e \<in> set (snd v). isFinite (fst e)"
      by (auto simp: finiteWeights_def)
    from es have "map stringifyEdge (snd v) = snd v"
      by (intro map_idI) (simp add: stringifyEdge_def stringifyNumber_finite)
    with w show ?thesis by (simp add: stringifyVertex_def stringifyNumber_finite)
  qed
  then show ?thesis by (intro map_idI)
qed

lemma readNodes_in_store: "readNodes h a = Some vs \<Longrightarrow> a < length h"
  by (auto simp: readNodes_def readArray_def load_def split: if_splits)

lemma copy_apart:
  assumes "closed h" and "nodesRef g < length h"
  shows "apart (length h) (length (h @ ext)) g (h @ ext)"
  unfolding apart_def
proof (intro conjI allI impI)
  show "length (h @ ext) \<le> length (h @ ext)" by simp
  from assms(2) show "outside (length h) (length (h @ ext)) (nodesRef g)" by (simp add: outside_def)
next
  fix a assume "a < length (h @ ext)" and "outside (length h) (length (h @ ext)) a"
  then have a: "a < length h" by (auto simp: outside_def)
  then have "h ! a \<in> set h" by simp
  with assms(1) have "\<forall>b \<in> set (references (h ! a)). b < length h"
    unfolding closed_def by blast
  with a show "\<forall>b \<in> set (references ((h @ ext) ! a)). outside (length h) (length (h @ ext)) b"
    by (simp add: nth_append outside_def)
qed

lemma deepCopyNodes_store_copy:
  assumes "closed h" and rd: "readNodes h (nodesRef g) = Some vs"
  obtains copy h1 where "deepCopyNodes_store g h = Inr (copy, h1)"
    and "readNodes h1 (nodesRef g) = Some vs"
    and "\<And>ms r. readNodes (fst (mutateAll g ms (h1, r))) copy = Some (map stringifyVertex vs)"
proof -
  obtain copy h1 where p: "parseArray parseVertex (map stringifyVertex vs) h = (copy, h1)"
    by (cases "parseArray parseVertex (map stringifyVertex vs) h")
  from parseNodes_builds p obtain ext where h1: "h1 = h @ ext"
    and bk: "\<And>h'. agrees (length h) (length h1) h1 h'
                 \<Longrightarrow> readNodes h' copy = Some (map stringifyVertex vs)"
    unfolding builds_def by (metis fst_conv snd_conv)
  from rd p have copy: "deepCopyNodes_store g h = Inr (copy, h1)"
    by (simp add: deepCopyNodes_store_def)
  from rd h1 have orig: "readNodes h1 (nodesRef g) = Some vs" by (simp add: readNodes_append)
  from copy_apart [OF assms(1) readNodes_in_store [OF rd], of ext] h1
  have ap: "apart (length h) (length h1) g h1" by simp
  have "readNodes (fst (mutateAll g ms (h1, r))) copy = Some (map stringifyVertex vs)" for ms r
  proof -
    from mutateAll_kept [of "length h" "length h1" g "(h1, r)" ms] ap
    have "kept (length h) (length h1) g h1 (fst (mutateAll g ms (h1, r)))" by simp
    then have "agrees (length h) (length h1) h1 (fst (mutateAll g ms (h1, r)))"
      by (simp add: kept_def apart_def agrees_def)
    then show ?thesis by (rule bk)
  qed
  with copy orig show thesis by (rule that)
qed

subsection \<open>Two graphs to copy\<close>

definition emptyGraph :: GraphObject where
  "emptyGraph = fst (newGraph_store False [])"

text \<open>\<open>g = new Graph(); g.addNode(Infinity)\<close>\<close>

definition infiniteNode :: store where
  "infiniteNode = fst (mutateAll emptyGraph [AddNode PosInfinity] (snd (newGraph_store False []), \<lambda>i. 0))"

text \<open>\<open>g = new Graph(); g.addNode(); g.addNode(); g.addEdge(0, 1)\<close>\<close>

definition oneEdge :: store where
  "oneEdge = fst (mutateAll emptyGraph [AddNode (Num 1), AddNode (Num 1), AddEdge 0 1 (Num 1)]
                    (snd (newGraph_store False []), \<lambda>i. 0))"

definition oneEdgeCopied :: store where
  "oneEdgeCopied = oneEdge @ [EdgeObject (Num 1) 1, ArrayObject [7], VertexObject (Num 1) 8,
                              EdgeObject (Num 1) 0, ArrayObject [10], VertexObject (Num 1) 11,
                              ArrayObject [9, 12]]"

text \<open>Every kind of mutation, on the graph that was copied.\<close>

definition manyMutations :: "mutation list" where
  "manyMutations = [SetEdgeWeight 0 1 (Num 7), SetNodeWeight 1 NaN, AddNode (Num 2),
                    AddEdge 2 0 (Num 3), SetRandomEdgeWeightSigns 0, RemoveEdge 1 0, RemoveNode 0]"

definition infiniteNodeCopied :: store where
  "infiniteNodeCopied = infiniteNode @ [ArrayObject [], VertexObject Null 3, ArrayObject [4]]"

lemma infiniteNode_copy:
  "readNodes infiniteNode (nodesRef emptyGraph) = Some [(PosInfinity, [])]"
  "deepCopyNodes_store emptyGraph infiniteNode = Inr (5, infiniteNodeCopied)"
  "readNodes infiniteNodeCopied 5 = Some [(Null, [])]"
  by code_simp+

lemma oneEdge_copy:
  "closed oneEdge"
  "readNodes oneEdge (nodesRef emptyGraph) = Some [(Num 1, [(Num 1, 1)]), (Num 1, [(Num 1, 0)])]"
  "finiteWeights [(Num 1, [(Num 1, 1)]), (Num 1, [(Num 1, 0)])]"
  "deepCopyNodes_store emptyGraph oneEdge = Inr (13, oneEdgeCopied)"
  "readNodes (fst (mutateAll emptyGraph manyMutations (oneEdgeCopied, \<lambda>i. 0))) (nodesRef emptyGraph)
   = Some [(NaN, []), (Num 2, [])]"
  by code_simp+

text \<open>
  C8, where the code misses it. After \<open>g = new Graph(); g.addNode(Infinity)\<close> the node
  has the weight \<open>Infinity\<close>; \<open>JSON.stringify\<close> writes it as \<open>null\<close>, and the vertex of
  the copy has the weight \<open>null\<close>: the copy is not structurally equal to the nodes of the
  graph. The same holds of \<open>NaN\<close> and of \<open>-Infinity\<close>, and of the weight of an edge.
\<close>

theorem deepCopyNodes_store_loses_Infinity:
  "readNodes infiniteNode (nodesRef emptyGraph) = Some [(PosInfinity, [])]
   \<and> deepCopyNodes_store emptyGraph infiniteNode = Inr (5, infiniteNodeCopied)
   \<and> readNodes infiniteNodeCopied 5 = Some [(Null, [])]"
  using infiniteNode_copy by simp

text \<open>
  C8, what does hold. A graph whose vertex array can be read, in a store where no object
  refers to an address that holds nothing:
  \<^item> \<open>deepCopyNodes\<close> returns; the array it returns reads as the nodes of the graph read at
    the time of the call, with \<open>null\<close> for every weight that is not a finite number, and so
    reads exactly as they do when every weight of a node and of an edge is finite;
  \<^item> the graph reads after the call as before;
  \<^item> after any number of calls of \<open>addNode\<close>, \<open>addEdge\<close>, \<open>removeNode\<close>, \<open>removeEdge\<close>,
    \<open>setNodeWeight\<close>, \<open>setEdgeWeight\<close> and \<open>setRandomEdgeWeightSigns\<close> on the graph, in
    any order and with any arguments, whether they return or throw, the array that was
    returned still reads the same.
\<close>

theorem deepCopyNodes_store_independent:
  assumes "closed h" and "readNodes h (nodesRef g) = Some vs"
  shows "\<exists>copy h1. deepCopyNodes_store g h = Inr (copy, h1)
           \<and> readNodes h1 copy = Some (map stringifyVertex vs)
           \<and> (finiteWeights vs \<longrightarrow> readNodes h1 copy = Some vs)
           \<and> readNodes h1 (nodesRef g) = Some vs
           \<and> (\<forall>ms r. readNodes (fst (mutateAll g ms (h1, r))) copy = readNodes h1 copy)"
proof (rule deepCopyNodes_store_copy [OF assms])
  fix copy h1
  assume c: "deepCopyNodes_store g h = Inr (copy, h1)"
    and orig: "readNodes h1 (nodesRef g) = Some vs"
    and after: "\<And>ms r. readNodes (fst (mutateAll g ms (h1, r))) copy = Some (map stringifyVertex vs)"
  from after [of "[]"] have now: "readNodes h1 copy = Some (map stringifyVertex vs)"
    by (simp add: mutateAll_def)
  with c orig after show ?thesis
    by (auto simp: stringify_finiteWeights)
qed

theorem deepCopyNodes_store_independent_witness:
  "closed oneEdge
   \<and> readNodes oneEdge (nodesRef emptyGraph) = Some [(Num 1, [(Num 1, 1)]), (Num 1, [(Num 1, 0)])]
   \<and> deepCopyNodes_store emptyGraph oneEdge = Inr (13, oneEdgeCopied)
   \<and> readNodes oneEdgeCopied 13 = Some [(Num 1, [(Num 1, 1)]), (Num 1, [(Num 1, 0)])]
   \<and> readNodes (fst (mutateAll emptyGraph manyMutations (oneEdgeCopied, \<lambda>i. 0))) (nodesRef emptyGraph)
       = Some [(NaN, []), (Num 2, [])]
   \<and> readNodes (fst (mutateAll emptyGraph manyMutations (oneEdgeCopied, \<lambda>i. 0))) 13
       = Some [(Num 1, [(Num 1, 1)]), (Num 1, [(Num 1, 0)])]"
  using deepCopyNodes_store_independent [OF oneEdge_copy(1,2)] oneEdge_copy
  by auto

end
